theory Spec2Isabelle
  imports Complex_Main
begin

unbundle bit_operations_syntax

section \<open>Storage and control\<close>

text \<open>
  The container of \<^verbatim>\<open>succinct_vector.hpp\<close> keeps a directory (a \<^verbatim>\<open>T **\<close> array) of
  pointers to buffers (\<^verbatim>\<open>T *\<close> arrays). Both kinds of array live in an explicit store, so
  that aliasing between two containers, or between a container and itself, is visible.

  \<^item> An address is a natural number; \<open>0\<close> is the null pointer.
  \<^item> \<open>bufs\<close> maps an address to the live \<^verbatim>\<open>T[]\<close> array allocated there, \<open>dirs\<close> to the live
    \<^verbatim>\<open>T*[]\<close> array. A cell that was never written holds \<open>None\<close> (an indeterminate value).
  \<^item> \<^verbatim>\<open>new\<close> hands out the address \<open>brk\<close> and advances it, so a fresh array never reuses
    an address; \<^verbatim>\<open>delete[]\<close> removes the array, and every later access through a stale
    pointer is the failure \<open>Undefined\<close>. Memory is unbounded: \<^verbatim>\<open>new\<close> never throws.
  \<^item> \<^verbatim>\<open>length_t\<close> and \<^verbatim>\<open>size_t\<close> values are natural numbers. The model is of the checked
    build (\<^verbatim>\<open>NDEBUG\<close> not defined): every \<^verbatim>\<open>assert\<close> is executed, and one that fails ends
    the run with the failure \<open>Assertion\<close> and the state it was reached in.
\<close>

type_synonym addr = nat

record 'a heap =
  bufs :: "addr \<Rightarrow> 'a option list option"
  dirs :: "addr \<Rightarrow> addr option list option"
  brk :: addr

record vector =
  dir :: addr
  dir_size :: nat
  last_buffer_size :: nat
  log_buffer_capacity :: nat
  big_buffer :: bool
  extra_buffer :: bool

type_synonym 'a state = "'a heap \<times> vector"

abbreviation heap :: "'a state \<Rightarrow> 'a heap" where
  "heap s \<equiv> fst s"

abbreviation this :: "'a state \<Rightarrow> vector" where
  "this s \<equiv> snd s"

datatype failure = Assertion | Undefined

datatype ('r, 's) outcome = Ok 'r 's | Abort failure 's

definition bind :: "('r, 's) outcome \<Rightarrow> ('r \<Rightarrow> 's \<Rightarrow> ('q, 's) outcome) \<Rightarrow> ('q, 's) outcome" where
  "bind m f = (case m of Ok r s \<Rightarrow> f r s | Abort e s \<Rightarrow> Abort e s)"

definition assert :: "bool \<Rightarrow> 's \<Rightarrow> (unit, 's) outcome" where
  "assert c s = (if c then Ok () s else Abort Assertion s)"

text \<open>Assignment to the members of \<^verbatim>\<open>*this\<close>.\<close>

definition modify :: "(vector \<Rightarrow> vector) \<Rightarrow> 'a state \<Rightarrow> (unit, 'a state) outcome" where
  "modify f s = Ok () (heap s, f (this s))"

text \<open>\<^verbatim>\<open>new T[n]\<close> and \<^verbatim>\<open>new T*[n]\<close>.\<close>

definition alloc_buf :: "nat \<Rightarrow> 'a heap \<Rightarrow> addr \<times> 'a heap" where
  "alloc_buf n h = (brk h, h\<lparr>bufs := (bufs h)(brk h \<mapsto> replicate n None), brk := Suc (brk h)\<rparr>)"

definition alloc_dir :: "nat \<Rightarrow> 'a heap \<Rightarrow> addr \<times> 'a heap" where
  "alloc_dir n h = (brk h, h\<lparr>dirs := (dirs h)(brk h \<mapsto> replicate n None), brk := Suc (brk h)\<rparr>)"

definition new_buf :: "nat \<Rightarrow> 'a state \<Rightarrow> (addr, 'a state) outcome" where
  "new_buf n s = Ok (fst (alloc_buf n (heap s))) (snd (alloc_buf n (heap s)), this s)"

definition new_dir :: "nat \<Rightarrow> 'a state \<Rightarrow> (addr, 'a state) outcome" where
  "new_dir n s = Ok (fst (alloc_dir n (heap s))) (snd (alloc_dir n (heap s)), this s)"

text \<open>\<^verbatim>\<open>delete[] p\<close> for a buffer and for a directory.\<close>

definition delete_buf :: "addr \<Rightarrow> 'a state \<Rightarrow> (unit, 'a state) outcome" where
  "delete_buf a s =
     (case bufs (heap s) a of
        None \<Rightarrow> Abort Undefined s
      | Some B \<Rightarrow> Ok () ((heap s)\<lparr>bufs := (bufs (heap s))(a := None)\<rparr>, this s))"

definition delete_dir :: "addr \<Rightarrow> 'a state \<Rightarrow> (unit, 'a state) outcome" where
  "delete_dir a s =
     (case dirs (heap s) a of
        None \<Rightarrow> Abort Undefined s
      | Some E \<Rightarrow> Ok () ((heap s)\<lparr>dirs := (dirs (heap s))(a := None)\<rparr>, this s))"

text \<open>
  \<^verbatim>\<open>p[k]\<close> read as a pointer, for a directory \<open>p\<close>: the slot must exist and hold a pointer
  that was stored there.
\<close>

definition dir_at :: "addr \<Rightarrow> nat \<Rightarrow> 'a state \<Rightarrow> (addr, 'a state) outcome" where
  "dir_at p k s =
     (case dirs (heap s) p of
        None \<Rightarrow> Abort Undefined s
      | Some E \<Rightarrow>
          if k < length E then
            (case E ! k of None \<Rightarrow> Abort Undefined s | Some a \<Rightarrow> Ok a s)
          else Abort Undefined s)"

text \<open>\<^verbatim>\<open>dir[k]\<close> and \<^verbatim>\<open>dir[k] = a\<close> on the directory of \<^verbatim>\<open>*this\<close>.\<close>

definition dir_get :: "nat \<Rightarrow> 'a state \<Rightarrow> (addr, 'a state) outcome" where
  "dir_get k s = dir_at (dir (this s)) k s"

definition dir_set :: "nat \<Rightarrow> addr \<Rightarrow> 'a state \<Rightarrow> (unit, 'a state) outcome" where
  "dir_set k a s =
     (case dirs (heap s) (dir (this s)) of
        None \<Rightarrow> Abort Undefined s
      | Some E \<Rightarrow>
          if k < length E then
            Ok () ((heap s)\<lparr>dirs := (dirs (heap s))(dir (this s) \<mapsto> E[k := Some a])\<rparr>, this s)
          else Abort Undefined s)"

text \<open>\<^verbatim>\<open>b[j]\<close> read and \<^verbatim>\<open>b[j] = x\<close> for a buffer \<open>b\<close>.\<close>

definition buf_get :: "addr \<Rightarrow> nat \<Rightarrow> 'a state \<Rightarrow> ('a option, 'a state) outcome" where
  "buf_get b j s =
     (case bufs (heap s) b of
        None \<Rightarrow> Abort Undefined s
      | Some B \<Rightarrow> if j < length B then Ok (B ! j) s else Abort Undefined s)"

definition buf_put :: "addr \<Rightarrow> nat \<Rightarrow> 'a option \<Rightarrow> 'a state \<Rightarrow> (unit, 'a state) outcome" where
  "buf_put b j c s =
     (case bufs (heap s) b of
        None \<Rightarrow> Abort Undefined s
      | Some B \<Rightarrow>
          if j < length B then
            Ok () ((heap s)\<lparr>bufs := (bufs (heap s))(b \<mapsto> B[j := c])\<rparr>, this s)
          else Abort Undefined s)"

text \<open>
  \<^verbatim>\<open>std::copy(src + off, src + off + n, dst + doff)\<close> on buffers, and
  \<^verbatim>\<open>std::copy(src, src + n, dst)\<close> on directories: the \<open>n\<close> cells are read, then written.
  Indeterminate cells are copied as they are.
\<close>

definition copy_cells :: "addr \<Rightarrow> nat \<Rightarrow> nat \<Rightarrow> addr \<Rightarrow> nat \<Rightarrow> 'a state \<Rightarrow> (unit, 'a state) outcome" where
  "copy_cells src off n dst doff s =
     (case bufs (heap s) src of
        None \<Rightarrow> Abort Undefined s
      | Some S \<Rightarrow>
          (case bufs (heap s) dst of
             None \<Rightarrow> Abort Undefined s
           | Some T \<Rightarrow>
               if off + n \<le> length S \<and> doff + n \<le> length T then
                 Ok () ((heap s)\<lparr>bufs := (bufs (heap s))
                           (dst \<mapsto> take doff T @ take n (drop off S) @ drop (doff + n) T)\<rparr>, this s)
               else Abort Undefined s))"

definition copy_slots :: "addr \<Rightarrow> nat \<Rightarrow> addr \<Rightarrow> 'a state \<Rightarrow> (unit, 'a state) outcome" where
  "copy_slots src n dst s =
     (case dirs (heap s) src of
        None \<Rightarrow> Abort Undefined s
      | Some S \<Rightarrow>
          (case dirs (heap s) dst of
             None \<Rightarrow> Abort Undefined s
           | Some T \<Rightarrow>
               if n \<le> length S \<and> n \<le> length T then
                 Ok () ((heap s)\<lparr>dirs := (dirs (heap s))(dst \<mapsto> take n S @ drop n T)\<rparr>, this s)
               else Abort Undefined s))"

section \<open>The container \<^verbatim>\<open>succinct::vector\<close>\<close>

definition dir_capacity :: "'a state \<Rightarrow> (nat, 'a state) outcome" where
  "dir_capacity s =
     bind (assert (log_buffer_capacity (this s) > 0) s) (\<lambda>_ s.
       Ok (push_bit (log_buffer_capacity (this s) - (if big_buffer (this s) then 1 else 0)) 1) s)"

definition buffer_capacity :: "vector \<Rightarrow> nat" where
  "buffer_capacity v = push_bit (log_buffer_capacity v) 1"

definition assert_valid :: "'a state \<Rightarrow> (unit, 'a state) outcome" where
  "assert_valid s =
     bind (assert (0 \<noteq> dir (this s)) s) (\<lambda>_ s.
     bind (assert (0 < log_buffer_capacity (this s)) s) (\<lambda>_ s.
     bind (dir_capacity s) (\<lambda>c s.
     bind (assert (dir_size (this s) \<le> c) s) (\<lambda>_ s.
     bind (assert (dir_size (this s) > 0) s) (\<lambda>_ s.
     bind (assert (last_buffer_size (this s) < buffer_capacity (this s)) s) (\<lambda>_ s.
     bind (if 0 = last_buffer_size (this s)
           then assert (\<not> extra_buffer (this s)) s else Ok () s) (\<lambda>_ s.
     bind (if extra_buffer (this s) then
             bind (assert (0 < last_buffer_size (this s)) s) (\<lambda>_ s.
             bind (dir_capacity s) (\<lambda>c s.
               assert (dir_size (this s) < c) s))
           else Ok () s) (\<lambda>_ s.
     bind (dir_capacity s) (\<lambda>c s.
       assert ((dir_size (this s) + (if extra_buffer (this s) then 1 else 0)) * 4 \<ge> c) s)))))))))"

definition size_vec :: "'a state \<Rightarrow> (nat, 'a state) outcome" where
  "size_vec s =
     bind (assert (dir_size (this s) > 0) s) (\<lambda>_ s.
       Ok (push_bit (log_buffer_capacity (this s)) (dir_size (this s) - 1)
             + last_buffer_size (this s)) s)"

text \<open>
  \<^verbatim>\<open>pget\<close> returns a reference: the buffer's address and the offset in it. The two
  \<^verbatim>\<open>operator[]\<close> return that reference; \<open>index_get\<close> reads through it and \<open>index_put\<close>
  assigns through it.
\<close>

definition pget :: "nat \<Rightarrow> 'a state \<Rightarrow> (addr \<times> nat, 'a state) outcome" where
  "pget i s =
     bind (assert_valid s) (\<lambda>_ s.
     bind (size_vec s) (\<lambda>n s.
     bind (assert (i < n) s) (\<lambda>_ s.
       let big = drop_bit (log_buffer_capacity (this s)) i;
           little = i AND (buffer_capacity (this s) - 1)
       in
     bind (assert (push_bit (log_buffer_capacity (this s)) big + little = i) s) (\<lambda>_ s.
     bind (assert (big < dir_size (this s)) s) (\<lambda>_ s.
     bind (assert (little < buffer_capacity (this s)) s) (\<lambda>_ s.
     bind (dir_get big s) (\<lambda>b s.
       Ok (b, little) s)))))))"

definition index_get :: "nat \<Rightarrow> 'a state \<Rightarrow> ('a option, 'a state) outcome" where
  "index_get i s = bind (pget i s) (\<lambda>r s. buf_get (fst r) (snd r) s)"

definition index_put :: "nat \<Rightarrow> 'a \<Rightarrow> 'a state \<Rightarrow> (unit, 'a state) outcome" where
  "index_put i x s = bind (pget i s) (\<lambda>r s. buf_put (fst r) (snd r) (Some x) s)"

subsection \<open>Rebuilding the directory\<close>

definition upsize_dir :: "'a state \<Rightarrow> (unit, 'a state) outcome" where
  "upsize_dir s =
     bind (assert (big_buffer (this s)) s) (\<lambda>_ s.
     bind (dir_capacity s) (\<lambda>old_dir_capacity s.
       let old_dir = dir (this s) in
     bind (new_dir (2 * old_dir_capacity) s) (\<lambda>d s.
     bind (modify (\<lambda>v. v\<lparr>dir := d\<rparr>) s) (\<lambda>_ s.
     bind (copy_slots old_dir old_dir_capacity (dir (this s)) s) (\<lambda>_ s.
     bind (delete_dir old_dir s) (\<lambda>_ s.
       modify (\<lambda>v. v\<lparr>big_buffer := False\<rparr>) s))))))"

definition downsize_dir :: "'a state \<Rightarrow> (unit, 'a state) outcome" where
  "downsize_dir s =
     bind (dir_capacity s) (\<lambda>old_dir_capacity s.
       let old_dir = dir (this s) in
     bind (new_dir (old_dir_capacity div 2) s) (\<lambda>d s.
     bind (modify (\<lambda>v. v\<lparr>dir := d\<rparr>) s) (\<lambda>_ s.
     bind (copy_slots old_dir (dir_size (this s)) (dir (this s)) s) (\<lambda>_ s.
     bind (delete_dir old_dir s) (\<lambda>_ s.
       modify (\<lambda>v. v\<lparr>big_buffer := True\<rparr>) s)))))"

subsection \<open>Rebuilding the buffers\<close>

text \<open>
  The body of the loop of \<^verbatim>\<open>upsize_buffers\<close> for one value of \<open>i\<close>, and the loop. The
  line \<^verbatim>\<open>assert (dir_size = dir_capacity())\<close> of the source is an assignment: in the checked
  build it stores the directory's capacity in \<open>dir_size\<close> and fails when that is zero.
\<close>

definition upsize_buffers_body :: "nat \<Rightarrow> nat \<Rightarrow> 'a state \<Rightarrow> (unit, 'a state) outcome" where
  "upsize_buffers_body buf_cap i s =
     bind (dir_get i s) (\<lambda>buf1 s.
     bind (dir_get (i + 1) s) (\<lambda>buf2 s.
     bind (new_buf (2 * buf_cap) s) (\<lambda>bigdir s.
     bind (dir_set (i div 2) bigdir s) (\<lambda>_ s.
     bind (copy_cells buf1 0 buf_cap bigdir 0 s) (\<lambda>_ s.
     bind (copy_cells buf2 0 buf_cap bigdir buf_cap s) (\<lambda>_ s.
     bind (delete_buf buf1 s) (\<lambda>_ s.
       delete_buf buf2 s)))))))"

lemma bind_eq_Ok:
  "bind m f = Ok r t \<longleftrightarrow> (\<exists>q u. m = Ok q u \<and> f q u = Ok r t)"
  by (cases m) (simp_all add: bind_def)

lemma prim_this:
  "dir_get k s = Ok a t \<Longrightarrow> this t = this s"
  "dir_at p k s = Ok a t \<Longrightarrow> this t = this s"
  "dir_set k a s = Ok u t \<Longrightarrow> this t = this s"
  "new_buf n s = Ok a t \<Longrightarrow> this t = this s"
  "new_dir n s = Ok a t \<Longrightarrow> this t = this s"
  "delete_buf a s = Ok u t \<Longrightarrow> this t = this s"
  "delete_dir a s = Ok u t \<Longrightarrow> this t = this s"
  "copy_cells a off n b doff s = Ok u t \<Longrightarrow> this t = this s"
  "assert c s = Ok u t \<Longrightarrow> this t = this s"
  by (auto simp: dir_get_def dir_at_def dir_set_def new_buf_def new_dir_def delete_buf_def
      delete_dir_def copy_cells_def assert_def split: option.splits if_splits)

lemma upsize_buffers_body_this:
  "upsize_buffers_body buf_cap i s = Ok u t \<Longrightarrow> this t = this s"
  unfolding upsize_buffers_body_def bind_eq_Ok
  by (auto dest!: prim_this)

function upsize_buffers_loop :: "nat \<Rightarrow> nat \<Rightarrow> 'a state \<Rightarrow> (unit, 'a state) outcome" where
  "upsize_buffers_loop buf_cap i s =
     (if i < dir_size (this s) then
        (case upsize_buffers_body buf_cap i s of
           Ok _ t \<Rightarrow> upsize_buffers_loop buf_cap (i + 2) t
         | Abort e t \<Rightarrow> Abort e t)
      else Ok () s)"
  by pat_completeness auto
termination
  by (relation "measure (\<lambda>(buf_cap, i, s). dir_size (this s) - i)")
     (auto dest: upsize_buffers_body_this)

declare upsize_buffers_loop.simps [simp del]

definition upsize_buffers :: "'a state \<Rightarrow> (unit, 'a state) outcome" where
  "upsize_buffers s =
     bind (assert (\<not> big_buffer (this s)) s) (\<lambda>_ s.
     bind (assert (\<not> extra_buffer (this s)) s) (\<lambda>_ s.
     bind (dir_capacity s) (\<lambda>c s.
     bind (modify (\<lambda>v. v\<lparr>dir_size := c\<rparr>) s) (\<lambda>_ s.
     bind (assert (dir_size (this s) \<noteq> 0) s) (\<lambda>_ s.
     bind (dir_capacity s) (\<lambda>c s.
     bind (assert (c AND 1 = 0) s) (\<lambda>_ s.
     bind (assert (last_buffer_size (this s) = buffer_capacity (this s)) s) (\<lambda>_ s.
       let buf_cap = buffer_capacity (this s) in
     bind (upsize_buffers_loop buf_cap 0 s) (\<lambda>_ s.
     bind (modify (\<lambda>v. v\<lparr>log_buffer_capacity := log_buffer_capacity v + 1\<rparr>) s) (\<lambda>_ s.
     bind (modify (\<lambda>v. v\<lparr>last_buffer_size := last_buffer_size v * 2\<rparr>) s) (\<lambda>_ s.
     bind (modify (\<lambda>v. v\<lparr>big_buffer := True\<rparr>) s) (\<lambda>_ s.
       modify (\<lambda>v. v\<lparr>dir_size := dir_size v div 2\<rparr>) s))))))))))))"

definition downsize_buffers_body :: "nat \<Rightarrow> nat \<Rightarrow> 'a state \<Rightarrow> (unit, 'a state) outcome" where
  "downsize_buffers_body buf_cap i s =
    (let k = dir_size (this s) - i - 1 in
     bind (assert (k < dir_size (this s) - 1) s) (\<lambda>_ s.
     bind (dir_get k s) (\<lambda>oldbuf s.
     bind (new_buf (buf_cap div 2) s) (\<lambda>a s.
     bind (dir_set (2 * k) a s) (\<lambda>_ s.
     bind (new_buf (buf_cap div 2) s) (\<lambda>a s.
     bind (dir_set (2 * k + 1) a s) (\<lambda>_ s.
     bind (dir_get (2 * k) s) (\<lambda>d s.
     bind (copy_cells oldbuf 0 (buf_cap div 2) d 0 s) (\<lambda>_ s.
     bind (dir_get (2 * k + 1) s) (\<lambda>d s.
     bind (copy_cells oldbuf (buf_cap div 2) (buf_cap - buf_cap div 2) d 0 s) (\<lambda>_ s.
       delete_buf oldbuf s)))))))))))"

lemma downsize_buffers_body_this:
  "downsize_buffers_body buf_cap i s = Ok u t \<Longrightarrow> this t = this s"
  unfolding downsize_buffers_body_def Let_def bind_eq_Ok
  by (auto dest!: prim_this)

function downsize_buffers_loop :: "nat \<Rightarrow> nat \<Rightarrow> 'a state \<Rightarrow> (unit, 'a state) outcome" where
  "downsize_buffers_loop buf_cap i s =
     (if i < dir_size (this s) then
        (case downsize_buffers_body buf_cap i s of
           Ok _ t \<Rightarrow> downsize_buffers_loop buf_cap (i + 1) t
         | Abort e t \<Rightarrow> Abort e t)
      else Ok () s)"
  by pat_completeness auto
termination
  by (relation "measure (\<lambda>(buf_cap, i, s). dir_size (this s) - i)")
     (auto dest: downsize_buffers_body_this)

declare downsize_buffers_loop.simps [simp del]

definition downsize_buffers :: "'a state \<Rightarrow> (unit, 'a state) outcome" where
  "downsize_buffers s =
     bind (assert (0 = last_buffer_size (this s)) s) (\<lambda>_ s.
     bind (assert (\<not> extra_buffer (this s)) s) (\<lambda>_ s.
     bind (assert (buffer_capacity (this s) AND 1 = 0) s) (\<lambda>_ s.
     bind (dir_capacity s) (\<lambda>c s.
     bind (assert (dir_size (this s) * 2 < c) s) (\<lambda>_ s.
     bind (assert (big_buffer (this s)) s) (\<lambda>_ s.
       let buf_cap = buffer_capacity (this s) in
     bind (dir_get (dir_size (this s) - 1) s) (\<lambda>b s.
     bind (delete_buf b s) (\<lambda>_ s.
     bind (downsize_buffers_loop buf_cap 1 s) (\<lambda>_ s.
     bind (modify (\<lambda>v. v\<lparr>big_buffer := False\<rparr>) s) (\<lambda>_ s.
     bind (modify (\<lambda>v. v\<lparr>log_buffer_capacity := log_buffer_capacity v - 1\<rparr>) s) (\<lambda>_ s.
     bind (modify (\<lambda>v. v\<lparr>dir_size := 2 * dir_size v - 1\<rparr>) s) (\<lambda>_ s.
     bind (new_buf (buffer_capacity (this s)) s) (\<lambda>a s.
     bind (dir_set (dir_size (this s) - 1) a s) (\<lambda>_ s.
       assert (0 = last_buffer_size (this s)) s))))))))))))))"

definition upsize :: "'a state \<Rightarrow> (unit, 'a state) outcome" where
  "upsize s =
     bind (size_vec s) (\<lambda>old_size s.
     bind (if big_buffer (this s) then upsize_dir s else upsize_buffers s) (\<lambda>_ s.
     bind (size_vec s) (\<lambda>n s.
       assert (n = old_size) s)))"

definition downsize :: "'a state \<Rightarrow> (unit, 'a state) outcome" where
  "downsize s =
     bind (size_vec s) (\<lambda>old_size s.
     bind (if big_buffer (this s) then downsize_buffers s else downsize_dir s) (\<lambda>_ s.
     bind (size_vec s) (\<lambda>n s.
       assert (n = old_size) s)))"

subsection \<open>The public mutators\<close>

definition push_back :: "'a \<Rightarrow> 'a state \<Rightarrow> (unit, 'a state) outcome" where
  "push_back x s =
     bind (size_vec s) (\<lambda>old_size s.
     bind (assert_valid s) (\<lambda>_ s.
     bind (assert (last_buffer_size (this s) < buffer_capacity (this s)) s) (\<lambda>_ s.
     bind (dir_get (dir_size (this s) - 1) s) (\<lambda>b s.
     bind (buf_put b (last_buffer_size (this s)) (Some x) s) (\<lambda>_ s.
     bind (modify (\<lambda>v. v\<lparr>last_buffer_size := last_buffer_size v + 1\<rparr>) s) (\<lambda>_ s.
     bind (if last_buffer_size (this s) = buffer_capacity (this s) then
             bind (if \<not> extra_buffer (this s) then
                     bind (dir_capacity s) (\<lambda>c s.
                     bind (if dir_size (this s) = c then upsize s else Ok () s) (\<lambda>_ s.
                     bind (dir_capacity s) (\<lambda>c s.
                     bind (assert (dir_size (this s) < c) s) (\<lambda>_ s.
                     bind (new_buf (buffer_capacity (this s)) s) (\<lambda>a s.
                       dir_set (dir_size (this s)) a s)))))
                   else Ok () s) (\<lambda>_ s.
             bind (modify (\<lambda>v. v\<lparr>dir_size := dir_size v + 1\<rparr>) s) (\<lambda>_ s.
             bind (modify (\<lambda>v. v\<lparr>extra_buffer := False\<rparr>) s) (\<lambda>_ s.
               modify (\<lambda>v. v\<lparr>last_buffer_size := 0\<rparr>) s)))
           else Ok () s) (\<lambda>_ s.
     bind (assert_valid s) (\<lambda>_ s.
     bind (size_vec s) (\<lambda>n s.
       assert (n = old_size + 1) s)))))))))"

definition pop_back :: "'a state \<Rightarrow> (unit, 'a state) outcome" where
  "pop_back s =
     bind (size_vec s) (\<lambda>old_size s.
     bind (assert_valid s) (\<lambda>_ s.
     bind (size_vec s) (\<lambda>n s.
     bind (assert (n > 0) s) (\<lambda>_ s.
     bind (if 0 = last_buffer_size (this s) then
             bind (assert (\<not> extra_buffer (this s)) s) (\<lambda>_ s.
             bind (modify (\<lambda>v. v\<lparr>last_buffer_size := buffer_capacity v - 1\<rparr>) s) (\<lambda>_ s.
             bind (modify (\<lambda>v. v\<lparr>dir_size := dir_size v - 1\<rparr>) s) (\<lambda>_ s.
               modify (\<lambda>v. v\<lparr>extra_buffer := True\<rparr>) s)))
           else
             bind (modify (\<lambda>v. v\<lparr>last_buffer_size := last_buffer_size v - 1\<rparr>) s) (\<lambda>_ s.
               if 0 = last_buffer_size (this s) \<and> extra_buffer (this s) then
                 bind (dir_get (dir_size (this s)) s) (\<lambda>b s.
                 bind (delete_buf b s) (\<lambda>_ s.
                   modify (\<lambda>v. v\<lparr>extra_buffer := False\<rparr>) s))
               else Ok () s)) (\<lambda>_ s.
     bind (dir_capacity s) (\<lambda>c s.
     bind (if (dir_size (this s) + (if extra_buffer (this s) then 1 else 0)) * 4 \<le> c then
             bind (dir_capacity s) (\<lambda>c s.
             bind (assert ((dir_size (this s) + (if extra_buffer (this s) then 1 else 0)) * 4 = c) s) (\<lambda>_ s.
               downsize s))
           else Ok () s) (\<lambda>_ s.
     bind (assert_valid s) (\<lambda>_ s.
     bind (size_vec s) (\<lambda>n s.
       assert (n + 1 = old_size) s)))))))))"

subsection \<open>Construction and destruction\<close>

text \<open>
  The default constructor builds the object in a given store. The member initialisers
  run in declaration order: \<^verbatim>\<open>dir(new T*[1])\<close> first.
\<close>

definition empty_heap :: "'a heap" where
  "empty_heap = \<lparr>bufs = (\<lambda>_. None), dirs = (\<lambda>_. None), brk = 1\<rparr>"

definition vector_ctor :: "'a heap \<Rightarrow> (unit, 'a state) outcome" where
  "vector_ctor h =
     (let s = (snd (alloc_dir 1 h),
               \<lparr>dir = fst (alloc_dir 1 h), dir_size = 1, last_buffer_size = 0,
                log_buffer_capacity = 1, big_buffer = True, extra_buffer = False\<rparr>)
      in
     bind (new_buf (buffer_capacity (this s)) s) (\<lambda>a s.
     bind (dir_set 0 a s) (\<lambda>_ s.
       assert_valid s)))"

definition destuct_body :: "nat \<Rightarrow> 'a state \<Rightarrow> (unit, 'a state) outcome" where
  "destuct_body i s = bind (dir_get i s) (\<lambda>b s. delete_buf b s)"

lemma destuct_body_this:
  "destuct_body i s = Ok u t \<Longrightarrow> this t = this s"
  unfolding destuct_body_def bind_eq_Ok
  by (auto dest!: prim_this)

function destuct_loop :: "nat \<Rightarrow> 'a state \<Rightarrow> (unit, 'a state) outcome" where
  "destuct_loop i s =
     (if i < dir_size (this s) then
        (case destuct_body i s of
           Ok _ t \<Rightarrow> destuct_loop (i + 1) t
         | Abort e t \<Rightarrow> Abort e t)
      else Ok () s)"
  by pat_completeness auto
termination
  by (relation "measure (\<lambda>(i, s). dir_size (this s) - i)")
     (auto dest: destuct_body_this)

declare destuct_loop.simps [simp del]

definition destuct :: "'a state \<Rightarrow> (unit, 'a state) outcome" where
  "destuct s =
     bind (destuct_loop 0 s) (\<lambda>_ s.
     bind (if extra_buffer (this s) then
             bind (dir_get (dir_size (this s)) s) (\<lambda>b s. delete_buf b s)
           else Ok () s) (\<lambda>_ s.
       delete_dir (dir (this s)) s))"

section \<open>Runs of public operations and the reference sequence\<close>

datatype 'a op = Push 'a | Pop | Put nat 'a

fun exec :: "'a op \<Rightarrow> 'a state \<Rightarrow> (unit, 'a state) outcome" where
  "exec (Push x) s = push_back x s"
| "exec Pop s = pop_back s"
| "exec (Put i x) s = index_put i x s"

fun run :: "'a op list \<Rightarrow> 'a state \<Rightarrow> (unit, 'a state) outcome" where
  "run [] s = Ok () s"
| "run (c # cs) s = bind (exec c s) (\<lambda>_ s. run cs s)"

definition run_vector :: "'a op list \<Rightarrow> (unit, 'a state) outcome" where
  "run_vector cs = bind (vector_ctor empty_heap) (\<lambda>_ s. run cs s)"

text \<open>The reference model: a plain sequence under the same operations.\<close>

fun ref_exec :: "'a op \<Rightarrow> 'a list \<Rightarrow> 'a list" where
  "ref_exec (Push x) xs = xs @ [x]"
| "ref_exec Pop xs = butlast xs"
| "ref_exec (Put i x) xs = xs[i := x]"

fun ref_run :: "'a op list \<Rightarrow> 'a list \<Rightarrow> 'a list" where
  "ref_run [] xs = xs"
| "ref_run (c # cs) xs = ref_run cs (ref_exec c xs)"

text \<open>
  A run respects the callers' contract when \<^verbatim>\<open>pop_back\<close> is applied to a non-empty
  sequence only and an index is below the size.
\<close>

fun permitted :: "'a op \<Rightarrow> 'a list \<Rightarrow> bool" where
  "permitted (Push x) xs = True"
| "permitted Pop xs = (xs \<noteq> [])"
| "permitted (Put i x) xs = (i < length xs)"

fun contract :: "'a op list \<Rightarrow> 'a list \<Rightarrow> bool" where
  "contract [] xs = True"
| "contract (c # cs) xs = (permitted c xs \<and> contract cs (ref_exec c xs))"

lemma bind_Ok [simp]: "bind (Ok r s) f = f r s"
  by (simp add: bind_def)

lemma bind_Abort [simp]: "bind (Abort e s) f = Abort e s"
  by (simp add: bind_def)

definition dcap :: "vector \<Rightarrow> nat" where
  "dcap v = 2 ^ (log_buffer_capacity v - (if big_buffer v then 1 else 0))"

definition count :: "vector \<Rightarrow> nat" where
  "count v = dir_size v + (if extra_buffer v then 1 else 0)"

definition size_of :: "vector \<Rightarrow> nat" where
  "size_of v = (dir_size v - 1) * buffer_capacity v + last_buffer_size v"

lemma buffer_capacity_pow: "buffer_capacity v = 2 ^ log_buffer_capacity v"
  by (simp add: buffer_capacity_def)

lemma dir_capacity_exec:
  "0 < log_buffer_capacity (this s) \<Longrightarrow> dir_capacity s = Ok (dcap (this s)) s"
  by (simp add: dir_capacity_def dcap_def assert_def)

lemma size_vec_exec:
  "0 < dir_size (this s) \<Longrightarrow> size_vec s = Ok (size_of (this s)) s"
  by (simp add: size_vec_def size_of_def buffer_capacity_pow push_bit_eq_mult assert_def)

definition valid :: "vector \<Rightarrow> bool" where
  "valid v \<longleftrightarrow>
     0 \<noteq> dir v \<and> 0 < log_buffer_capacity v \<and> dir_size v \<le> dcap v \<and> 0 < dir_size v \<and>
     last_buffer_size v < buffer_capacity v \<and>
     (last_buffer_size v = 0 \<longrightarrow> \<not> extra_buffer v) \<and>
     (extra_buffer v \<longrightarrow> 0 < last_buffer_size v \<and> dir_size v < dcap v) \<and>
     dcap v \<le> count v * 4"

lemma assert_valid_exec:
  "assert_valid s = (if valid (this s) then Ok () s else Abort Assertion s)"
  unfolding assert_valid_def valid_def count_def
  by (auto simp: dir_capacity_exec assert_def)


definition shape :: "vector \<Rightarrow> bool" where
  "shape v \<longleftrightarrow>
     valid v \<and>
     (dcap v < count v * 4 \<or>
      dir_size v = 1 \<and> \<not> extra_buffer v \<and> \<not> big_buffer v \<and> log_buffer_capacity v = 2)"

definition laid :: "'a heap \<Rightarrow> addr \<Rightarrow> nat \<Rightarrow> nat \<Rightarrow> addr list \<Rightarrow> 'a option list list \<Rightarrow> bool" where
  "laid h d cap bc D Bs \<longleftrightarrow>
     0 < d \<and> d < brk h \<and> length D \<le> cap \<and> length Bs = length D \<and> distinct D \<and>
     (\<exists>E. dirs h d = Some E \<and> length E = cap \<and> (\<forall>k<length D. E ! k = Some (D ! k))) \<and>
     (\<forall>k<length D. D ! k < brk h \<and> bufs h (D ! k) = Some (Bs ! k) \<and> length (Bs ! k) = bc)"

definition elems :: "vector \<Rightarrow> 'a option list list \<Rightarrow> 'a option list" where
  "elems v Bs = concat (take (dir_size v - 1) Bs) @ take (last_buffer_size v) (Bs ! (dir_size v - 1))"

definition rep :: "'a state \<Rightarrow> addr list \<Rightarrow> 'a option list list \<Rightarrow> bool" where
  "rep s D Bs \<longleftrightarrow>
     shape (this s) \<and> length D = count (this s) \<and>
     laid (heap s) (dir (this s)) (dcap (this s)) (buffer_capacity (this s)) D Bs"

lemma length_concat_uniform:
  "\<forall>B\<in>set Bs. length B = n \<Longrightarrow> length (concat Bs) = length Bs * n"
  by (induction Bs) auto

lemma nth_concat_uniform:
  "\<forall>B\<in>set Bs. length B = n \<Longrightarrow> i < length Bs * n \<Longrightarrow> concat Bs ! i = Bs ! (i div n) ! (i mod n)"
proof (induction Bs arbitrary: i)
  case Nil
  then show ?case by simp
next
  case (Cons B Bs)
  have n: "0 < n" using Cons.prems(2) by (cases n) auto
  show ?case
  proof (cases "i < n")
    case True
    with Cons.prems show ?thesis by (simp add: nth_append)
  next
    case False
    then have i: "i = (i - n) + n" by simp
    have d: "i div n = Suc ((i - n) div n)" and m: "i mod n = (i - n) mod n"
      using False n by (simp_all add: le_div_geq le_mod_geq)
    have "i - n < length Bs * n" using Cons.prems(2) False by simp
    with Cons.IH [of "i - n"] Cons.prems(1) have "concat Bs ! (i - n) = Bs ! ((i - n) div n) ! ((i - n) mod n)"
      by simp
    with False Cons.prems(1) show ?thesis by (simp add: nth_append d m)
  qed
qed

lemma laid_uniform:
  assumes "laid h d cap bc D Bs"
  shows "\<forall>B\<in>set Bs. length B = bc"
  using assms unfolding laid_def by (auto simp: in_set_conv_nth)

lemma elems_length:
  assumes "\<forall>B\<in>set Bs. length B = buffer_capacity v" "0 < dir_size v" "dir_size v \<le> length Bs"
    "last_buffer_size v \<le> buffer_capacity v"
  shows "length (elems v Bs) = size_of v"
proof -
  have "\<forall>B\<in>set (take (dir_size v - 1) Bs). length B = buffer_capacity v"
    using assms(1) by (auto dest: in_set_takeD)
  from length_concat_uniform [OF this]
  have "length (concat (take (dir_size v - 1) Bs)) = (dir_size v - 1) * buffer_capacity v"
    using assms(2,3) by simp
  moreover have "length (Bs ! (dir_size v - 1)) = buffer_capacity v"
    using assms(1,2,3) by simp
  ultimately show ?thesis using assms(4) by (simp add: elems_def size_of_def)
qed

lemma elems_nth:
  assumes u: "\<forall>B\<in>set Bs. length B = buffer_capacity v" and "0 < dir_size v" "dir_size v \<le> length Bs"
    "last_buffer_size v \<le> buffer_capacity v" and i: "i < size_of v"
  shows "elems v Bs ! i = Bs ! (i div buffer_capacity v) ! (i mod buffer_capacity v)"
proof -
  let ?n = "buffer_capacity v" and ?m = "dir_size v - 1"
  have n: "0 < ?n" by (simp add: buffer_capacity_pow)
  have ut: "\<forall>B\<in>set (take ?m Bs). length B = ?n"
    using u by (auto dest: in_set_takeD)
  have lt: "length (take ?m Bs) = ?m" using assms(2,3) by simp
  have lc: "length (concat (take ?m Bs)) = ?m * ?n"
    using length_concat_uniform [OF ut] lt by simp
  show ?thesis
  proof (cases "i < ?m * ?n")
    case True
    then have "i div ?n < ?m" by (simp add: less_mult_imp_div_less)
    moreover have "concat (take ?m Bs) ! i = take ?m Bs ! (i div ?n) ! (i mod ?n)"
      using nth_concat_uniform [OF ut, of i] True lt by simp
    ultimately show ?thesis using True lc by (simp add: elems_def nth_append)
  next
    case False
    then have ge: "?m * ?n \<le> i" by simp
    from i have lt2: "i - ?m * ?n < last_buffer_size v" using ge by (simp add: size_of_def)
    then have "i - ?m * ?n < ?n" using assms(4) by simp
    define r where "r = i - ?m * ?n"
    have ir: "i = ?m * ?n + r" and rn: "r < ?n" using ge \<open>i - ?m * ?n < ?n\<close> by (simp_all add: r_def)
    have d: "i div ?n = ?m" and m: "i mod ?n = i - ?m * ?n"
      unfolding ir using rn n by simp_all
    show ?thesis using False lc lt2 by (simp add: elems_def nth_append d m)
  qed
qed

lemma AND_mask_mod: "(i::nat) AND (2 ^ n - Suc 0) = i mod 2 ^ n"
  by (metis One_nat_def take_bit_eq_mask mask_eq_exp_minus_1 take_bit_eq_mod)


lemma rep_valid: "rep s D Bs \<Longrightarrow> valid (this s)"
  by (simp add: rep_def shape_def)

lemma rep_elems_length:
  assumes "rep s D Bs"
  shows "length (elems (this s) Bs) = size_of (this s)"
proof -
  from assms have l: "laid (heap s) (dir (this s)) (dcap (this s)) (buffer_capacity (this s)) D Bs"
    and v: "valid (this s)" and c: "length D = count (this s)"
    by (simp_all add: rep_def shape_def)
  from l have "length Bs = length D" by (simp add: laid_def)
  with c have "dir_size (this s) \<le> length Bs" by (simp add: count_def)
  with elems_length [OF laid_uniform [OF l]] v show ?thesis by (simp add: valid_def)
qed

lemma pget_exec:
  assumes r: "rep s D Bs" and i: "i < size_of (this s)"
  shows "pget i s = Ok (D ! (i div buffer_capacity (this s)), i mod buffer_capacity (this s)) s"
proof -
  let ?v = "this s" and ?n = "buffer_capacity (this s)"
  from r have l: "laid (heap s) (dir ?v) (dcap ?v) ?n D Bs"
    and v: "valid ?v" and c: "length D = count ?v"
    by (simp_all add: rep_def shape_def)
  have n: "0 < ?n" by (simp add: buffer_capacity_pow)
  from v have ds: "0 < dir_size ?v" and lb: "last_buffer_size ?v < ?n" by (simp_all add: valid_def)
  have "size_of ?v < (dir_size ?v - 1) * ?n + ?n" using lb by (simp add: size_of_def)
  also have "\<dots> = dir_size ?v * ?n" using ds by (cases "dir_size ?v") simp_all
  finally have "i < dir_size ?v * ?n" using i by simp
  then have big: "i div ?n < dir_size ?v" by (simp add: less_mult_imp_div_less)
  then have "i div ?n < length D" using c by (simp add: count_def)
  with l obtain E where E: "dirs (heap s) (dir ?v) = Some E" "i div ?n < length E"
      "E ! (i div ?n) = Some (D ! (i div ?n))"
    unfolding laid_def by force
  have little: "i mod ?n < ?n" using n by simp
  have b1: "drop_bit (log_buffer_capacity ?v) i = i div ?n"
    and b2: "i AND (?n - Suc 0) = i mod ?n"
    and b3: "\<And>x::nat. push_bit (log_buffer_capacity ?v) x = x * ?n"
    by (simp_all add: drop_bit_eq_div buffer_capacity_pow AND_mask_mod push_bit_eq_mult)
  show ?thesis
    using v ds i big little E
    by (simp add: pget_def assert_valid_exec size_vec_exec Let_def assert_def b1 b2 b3
        dir_get_def dir_at_def)
qed

lemma index_get_exec:
  assumes r: "rep s D Bs" and i: "i < size_of (this s)"
  shows "index_get i s = Ok (elems (this s) Bs ! i) s"
proof -
  let ?v = "this s" and ?n = "buffer_capacity (this s)"
  from r have l: "laid (heap s) (dir ?v) (dcap ?v) ?n D Bs"
    and v: "valid ?v" and c: "length D = count ?v"
    by (simp_all add: rep_def shape_def)
  have n: "0 < ?n" by (simp add: buffer_capacity_pow)
  from v have ds: "0 < dir_size ?v" and lb: "last_buffer_size ?v < ?n" by (simp_all add: valid_def)
  have "size_of ?v < (dir_size ?v - 1) * ?n + ?n" using lb by (simp add: size_of_def)
  also have "\<dots> = dir_size ?v * ?n" using ds by (cases "dir_size ?v") simp_all
  finally have "i < dir_size ?v * ?n" using i by simp
  then have big: "i div ?n < dir_size ?v" by (simp add: less_mult_imp_div_less)
  then have k: "i div ?n < length D" using c by (simp add: count_def)
  with l have B: "bufs (heap s) (D ! (i div ?n)) = Some (Bs ! (i div ?n))"
      "length (Bs ! (i div ?n)) = ?n" and lB: "length Bs = length D"
    unfolding laid_def by auto
  have little: "i mod ?n < ?n" using n by simp
  have "dir_size ?v \<le> length Bs" using c lB by (simp add: count_def)
  from elems_nth [OF laid_uniform [OF l] ds this _ i] lb
  have "elems ?v Bs ! i = Bs ! (i div ?n) ! (i mod ?n)" by simp
  then show ?thesis
    using B little by (simp add: index_get_def pget_exec [OF r i] buf_get_def)
qed


definition frame :: "'a heap \<Rightarrow> addr set \<Rightarrow> 'a heap \<Rightarrow> addr set \<Rightarrow> bool" where
  "frame h A h' A' \<longleftrightarrow>
     brk h \<le> brk h' \<and> A' \<subseteq> A \<union> {brk h..<brk h'} \<and>
     (\<forall>a. a < brk h \<and> a \<notin> A \<longrightarrow> bufs h' a = bufs h a \<and> dirs h' a = dirs h a)"

lemma laid_put:
  assumes "laid h d cap bc D Bs" "k < length D" "length B = bc"
    and "bufs h' = (bufs h)(D ! k \<mapsto> B)" "dirs h' = dirs h" "brk h' = brk h"
  shows "laid h' d cap bc D (Bs[k := B])"
  using assms unfolding laid_def
  by (auto simp: nth_list_update nth_eq_iff_index_eq)

lemma index_put_rep:
  assumes r: "rep (h, v) D Bs" and i: "i < size_of v"
  shows "\<exists>h' Bs'. index_put i x (h, v) = Ok () (h', v) \<and> rep (h', v) D Bs' \<and>
           elems v Bs' = (elems v Bs)[i := Some x] \<and>
           frame h (insert (dir v) (set D)) h' (insert (dir v) (set D))"
proof -
  let ?n = "buffer_capacity v"
  let ?k = "i div ?n" and ?j = "i mod ?n"
  let ?B = "(Bs ! ?k)[?j := Some x]"
  let ?h = "h\<lparr>bufs := (bufs h)(D ! ?k \<mapsto> ?B)\<rparr>"
  from r have l: "laid h (dir v) (dcap v) ?n D Bs"
    and v: "valid v" and c: "length D = count v" and sh: "shape v"
    by (simp_all add: rep_def shape_def)
  have n: "0 < ?n" by (simp add: buffer_capacity_pow)
  from v have ds: "0 < dir_size v" and lb: "last_buffer_size v < ?n" by (simp_all add: valid_def)
  have "size_of v < (dir_size v - 1) * ?n + ?n" using lb by (simp add: size_of_def)
  also have "\<dots> = dir_size v * ?n" using ds by (cases "dir_size v") simp_all
  finally have "i < dir_size v * ?n" using i by simp
  then have big: "?k < dir_size v" by (simp add: less_mult_imp_div_less)
  then have k: "?k < length D" using c by (simp add: count_def)
  with l have B: "bufs h (D ! ?k) = Some (Bs ! ?k)" "length (Bs ! ?k) = ?n"
    and lB: "length Bs = length D"
    unfolding laid_def by auto
  have little: "?j < ?n" using n by simp
  have ex: "index_put i x (h, v) = Ok () (?h, v)"
    using B little pget_exec [OF r] i by (simp add: index_put_def buf_put_def)
  have l': "laid ?h (dir v) (dcap v) ?n D (Bs[?k := ?B])"
    by (rule laid_put [OF l k]) (simp_all add: B)
  have r': "rep (?h, v) D (Bs[?k := ?B])"
    using l' sh c by (simp add: rep_def)
  have dsl: "dir_size v \<le> length Bs" using c lB by (simp add: count_def)
  have e: "elems v (Bs[?k := ?B]) = (elems v Bs)[i := Some x]"
  proof (rule nth_equalityI)
    show "length (elems v (Bs[?k := ?B])) = length ((elems v Bs)[i := Some x])"
      using rep_elems_length [OF r] rep_elems_length [OF r'] by simp
  next
    fix m assume "m < length (elems v (Bs[?k := ?B]))"
    then have m: "m < size_of v" using rep_elems_length [OF r'] by simp
    have "elems v (Bs[?k := ?B]) ! m = Bs[?k := ?B] ! (m div ?n) ! (m mod ?n)"
      using elems_nth [OF laid_uniform [OF l'] ds _ _ m] dsl lb by simp
    moreover have "elems v Bs ! m = Bs ! (m div ?n) ! (m mod ?n)"
      using elems_nth [OF laid_uniform [OF l] ds _ _ m] dsl lb by simp
    moreover have "m div ?n < length Bs"
    proof -
      have "m < dir_size v * ?n" using m \<open>size_of v < (dir_size v - 1) * ?n + ?n\<close>
          \<open>(dir_size v - 1) * ?n + ?n = dir_size v * ?n\<close> by simp
      then have "m div ?n < dir_size v" by (simp add: less_mult_imp_div_less)
      then show ?thesis using dsl by simp
    qed
    moreover have "m = i \<longleftrightarrow> m div ?n = ?k \<and> m mod ?n = ?j"
      by (metis div_mult_mod_eq)
    ultimately show "elems v (Bs[?k := ?B]) ! m = (elems v Bs)[i := Some x] ! m"
      using m i rep_elems_length [OF r] k lB B little
      by (auto simp: nth_list_update)
  qed
  have f: "frame h (insert (dir v) (set D)) ?h (insert (dir v) (set D))"
    using k by (auto simp: frame_def)
  from ex r' e f show ?thesis by blast
qed


lemmas prim_defs = dir_get_def dir_at_def dir_set_def new_buf_def new_dir_def alloc_buf_def
  alloc_dir_def delete_buf_def delete_dir_def buf_get_def buf_put_def copy_cells_def
  copy_slots_def modify_def assert_def

lemma upsize_buffers_body_exec:
  assumes "dirs h (dir v) = Some L" "Suc i < length L" "L ! i = Some a1" "L ! Suc i = Some a2"
    and "bufs h a1 = Some B1" "bufs h a2 = Some B2" "length B1 = bc" "length B2 = bc"
    and "a1 \<noteq> a2" "a1 < brk h" "a2 < brk h"
  shows "upsize_buffers_body bc i (h, v) =
           Ok () (h\<lparr>bufs := ((bufs h)(brk h \<mapsto> B1 @ B2))(a1 := None, a2 := None),
                    dirs := (dirs h)(dir v \<mapsto> L[i div 2 := Some (brk h)]),
                    brk := Suc (brk h)\<rparr>, v)"
  using assms by (simp add: upsize_buffers_body_def prim_defs)


definition up_inv :: "'a heap \<Rightarrow> addr \<Rightarrow> addr list \<Rightarrow> 'a option list list \<Rightarrow> addr option list
    \<Rightarrow> nat \<Rightarrow> 'a heap \<Rightarrow> bool" where
  "up_inv h0 d D Bs E0 j h \<longleftrightarrow>
     brk h = brk h0 + j \<and>
     dirs h = (dirs h0)(d \<mapsto> map Some [brk h0..<brk h0 + j] @ drop j E0) \<and>
     (\<forall>a. bufs h a =
        (if a \<in> set (take (2 * j) D) then None
         else if brk h0 \<le> a \<and> a < brk h0 + j
           then Some (Bs ! (2 * (a - brk h0)) @ Bs ! (2 * (a - brk h0) + 1))
           else bufs h0 a))"

lemma drop_update_hd: "j < length E \<Longrightarrow> (drop j E)[0 := x] = x # drop (Suc j) E"
  by (metis Cons_nth_drop_Suc list_update_code(2))

lemma set_take_Suc_Suc:
  "Suc n < length D \<Longrightarrow> set (take (Suc (Suc n)) D) = insert (D ! n) (insert (D ! Suc n) (set (take n D)))"
  by (auto simp: take_Suc_conv_app_nth)

lemma up_inv_step:
  assumes l: "laid h0 d cap bc D Bs" and E0: "dirs h0 d = Some E0"
    and inv: "up_inv h0 d D Bs E0 j h" and j: "Suc (2 * j) < length D" and d: "dir v = d"
  shows "\<exists>h1. upsize_buffers_body bc (2 * j) (h, v) = Ok () (h1, v) \<and> up_inv h0 d D Bs E0 (Suc j) h1"
proof -
  let ?b = "brk h0"
  let ?L = "map Some [?b..<?b + j] @ drop j E0"
  let ?a1 = "D ! (2 * j)" and ?a2 = "D ! Suc (2 * j)"
  let ?B1 = "Bs ! (2 * j)" and ?B2 = "Bs ! Suc (2 * j)"
  from l E0 have lE: "length E0 = cap" "length D \<le> cap"
    and Ek: "\<And>k. k < length D \<Longrightarrow> E0 ! k = Some (D ! k)"
    and dist: "distinct D"
    and Dk: "\<And>k. k < length D \<Longrightarrow> D ! k < ?b \<and> bufs h0 (D ! k) = Some (Bs ! k) \<and> length (Bs ! k) = bc"
    unfolding laid_def by auto
  from inv have bh: "brk h = ?b + j" and dh: "dirs h = (dirs h0)(d \<mapsto> ?L)"
    and bufh: "\<And>a. bufs h a =
        (if a \<in> set (take (2 * j) D) then None
         else if ?b \<le> a \<and> a < ?b + j
           then Some (Bs ! (2 * (a - ?b)) @ Bs ! (2 * (a - ?b) + 1))
           else bufs h0 a)"
    unfolding up_inv_def by auto
  have j1: "2 * j < length D" using j by simp
  have n1: "?a1 \<notin> set (take (2 * j) D)" and n2: "?a2 \<notin> set (take (2 * j) D)"
    using dist j j1 by (auto simp: in_set_conv_nth nth_eq_iff_index_eq)
  have b1: "bufs h ?a1 = Some ?B1" and b2: "bufs h ?a2 = Some ?B2"
    using bufh n1 n2 Dk [OF j1] Dk [OF j] by auto
  have ne: "?a1 \<noteq> ?a2" using dist j j1 by (simp add: nth_eq_iff_index_eq)
  have L1: "?L ! (2 * j) = Some ?a1" and L2: "?L ! Suc (2 * j) = Some ?a2"
    using j j1 lE Ek by (simp_all add: nth_append mult_2)
  have lL: "Suc (2 * j) < length ?L" using j lE by simp
  let ?h1 = "h\<lparr>bufs := ((bufs h)(brk h \<mapsto> ?B1 @ ?B2))(?a1 := None, ?a2 := None),
                dirs := (dirs h)(dir v \<mapsto> ?L[(2 * j) div 2 := Some (brk h)]),
                brk := Suc (brk h)\<rparr>"
  have ex: "upsize_buffers_body bc (2 * j) (h, v) = Ok () (?h1, v)"
    by (rule upsize_buffers_body_exec [where ?B1.0 = ?B1 and ?B2.0 = ?B2])
       (use dh d lL L1 L2 b1 b2 Dk [OF j1] Dk [OF j] ne bh in \<open>simp_all\<close>)
  have "?L[j := Some (brk h)] = map Some [?b..<?b + Suc j] @ drop (Suc j) E0"
    using j lE bh by (simp add: list_update_append drop_update_hd)
  then have dirs': "dirs ?h1 = (dirs h0)(d \<mapsto> map Some [?b..<?b + Suc j] @ drop (Suc j) E0)"
    using dh d by simp
  have bufs': "bufs ?h1 a =
        (if a \<in> set (take (2 * Suc j) D) then None
         else if ?b \<le> a \<and> a < ?b + Suc j
           then Some (Bs ! (2 * (a - ?b)) @ Bs ! (2 * (a - ?b) + 1))
           else bufs h0 a)" for a
  proof -
    have "x < ?b" if "x \<in> set (take (2 * j) D)" for x
      using in_set_takeD [OF that] Dk by (auto simp: in_set_conv_nth)
    then show ?thesis
      using bufh [of a] bh Dk [OF j1] Dk [OF j]
      by (auto simp: set_take_Suc_Suc [OF j])
  qed
  have "up_inv h0 d D Bs E0 (Suc j) ?h1"
    unfolding up_inv_def using bh dirs' bufs' by simp
  with ex show ?thesis by blast
qed

lemma up_inv_loop:
  assumes l: "laid h0 d cap bc D Bs" and E0: "dirs h0 d = Some E0"
    and d: "dir v = d" and n: "dir_size v = length D" and ev: "even (length D)"
  shows "up_inv h0 d D Bs E0 j h \<Longrightarrow> 2 * j \<le> length D \<Longrightarrow>
         \<exists>h'. upsize_buffers_loop bc (2 * j) (h, v) = Ok () (h', v) \<and>
              up_inv h0 d D Bs E0 (length D div 2) h'"
proof (induction "length D div 2 - j" arbitrary: j h)
  case 0
  then have "2 * j = length D" using ev by (auto elim: evenE)
  then have "j = length D div 2" and "\<not> 2 * j < dir_size v" using n by simp_all
  with 0 show ?case
    by (subst upsize_buffers_loop.simps) simp
next
  case (Suc m)
  then have lt: "2 * j < length D" by simp
  with ev have j: "Suc (2 * j) < length D" by (auto elim!: evenE)
  from up_inv_step [OF l E0 Suc.prems(1) j d]
  obtain h1 where h1: "upsize_buffers_body bc (2 * j) (h, v) = Ok () (h1, v)"
      "up_inv h0 d D Bs E0 (Suc j) h1" by blast
  have "m = length D div 2 - Suc j" using Suc.hyps(2) by simp
  from Suc.hyps(1) [OF this h1(2)] j
  obtain h' where "upsize_buffers_loop bc (2 * Suc j) (h1, v) = Ok () (h', v)"
      "up_inv h0 d D Bs E0 (length D div 2) h'" by auto
  moreover have "2 * j < dir_size v" using lt n by simp
  ultimately show ?case
    using h1(1) by (subst upsize_buffers_loop.simps) simp
qed


lemma up_inv_0:
  assumes "dirs h0 d = Some E0"
  shows "up_inv h0 d D Bs E0 0 h0"
  using assms by (auto simp: up_inv_def)

lemma concat_pairs:
  "2 * m \<le> length Bs \<Longrightarrow>
     concat (map (\<lambda>j. Bs ! (2 * j) @ Bs ! (2 * j + 1)) [0..<m]) = concat (take (2 * m) Bs)"
  by (induction m) (simp_all add: take_Suc_conv_app_nth)

lemma dcap_pos: "0 < dcap v"
  by (simp add: dcap_def)

lemma even_AND_1: "even (x::nat) \<Longrightarrow> x AND 1 = 0"
  by (simp add: and_one_eq)

lemma upsize_buffers_spec:
  assumes l: "laid h (dir v) (dcap v) (buffer_capacity v) D Bs"
    and n: "length D = dcap v" and nb: "\<not> big_buffer v" and ne: "\<not> extra_buffer v"
    and lbc: "0 < log_buffer_capacity v" and full: "last_buffer_size v = buffer_capacity v"
  defines "m \<equiv> dcap v div 2"
  defines "v' \<equiv> v\<lparr>dir_size := dcap v div 2, last_buffer_size := last_buffer_size v * 2,
                    log_buffer_capacity := log_buffer_capacity v + 1, big_buffer := True\<rparr>"
  defines "D' \<equiv> [brk h..<brk h + m]"
  defines "Bs' \<equiv> map (\<lambda>j. Bs ! (2 * j) @ Bs ! (2 * j + 1)) [0..<m]"
  shows "\<exists>h'. upsize_buffers (h, v) = Ok () (h', v') \<and>
           laid h' (dir v') (dcap v') (buffer_capacity v') D' Bs' \<and>
           brk h' = brk h + m \<and>
           (\<forall>a. a \<noteq> dir v \<longrightarrow> dirs h' a = dirs h a) \<and>
           (\<forall>a. a < brk h \<and> a \<notin> set D \<longrightarrow> bufs h' a = bufs h a)"
proof -
  let ?bc = "buffer_capacity v" and ?d = "dir v" and ?b = "brk h"
  let ?v1 = "v\<lparr>dir_size := dcap v\<rparr>"
  from l obtain E0 where E0: "dirs h ?d = Some E0" and lE: "length E0 = dcap v"
    unfolding laid_def by auto
  from l have d0: "0 < ?d" "?d < ?b" and lB: "length Bs = length D"
    and Dk: "\<And>k. k < length D \<Longrightarrow> D ! k < ?b \<and> bufs h (D ! k) = Some (Bs ! k) \<and> length (Bs ! k) = ?bc"
    unfolding laid_def by auto
  have dc: "dcap v = 2 ^ log_buffer_capacity v" using nb by (simp add: dcap_def)
  obtain q where q: "log_buffer_capacity v = Suc q" using lbc by (cases "log_buffer_capacity v") auto
  have ev: "even (dcap v)" and m2: "2 * m = dcap v" and mpos: "0 < m"
    unfolding m_def dc q by simp_all
  have evD: "even (length D)" using ev n by simp
  have dv1: "dir ?v1 = ?d" and nv1: "dir_size ?v1 = length D" using n by simp_all
  from up_inv_loop [OF l E0 dv1 nv1 evD up_inv_0 [OF E0]]
  obtain h' where loop: "upsize_buffers_loop ?bc 0 (h, ?v1) = Ok () (h', ?v1)"
    and inv: "up_inv h ?d D Bs E0 (length D div 2) h'" by auto
  have md: "length D div 2 = m" using n by (simp add: m_def)
  from inv have bh: "brk h' = ?b + m"
    and dh: "dirs h' = (dirs h)(?d \<mapsto> map Some [?b..<?b + m] @ drop m E0)"
    and bufh: "\<And>a. bufs h' a =
        (if a \<in> set (take (2 * m) D) then None
         else if ?b \<le> a \<and> a < ?b + m
           then Some (Bs ! (2 * (a - ?b)) @ Bs ! (2 * (a - ?b) + 1))
           else bufs h a)"
    unfolding up_inv_def md by auto
  have ex: "upsize_buffers (h, v) = Ok () (h', v')"
    using nb ne lbc full loop ev
    by (simp add: upsize_buffers_def dir_capacity_exec prim_defs dcap_pos Let_def
        even_AND_1 buffer_capacity_def dcap_def v'_def)
  have dcv': "dcap v' = dcap v" and bcv': "buffer_capacity v' = 2 * ?bc" and dv': "dir v' = ?d"
    using nb by (simp_all add: v'_def dcap_def buffer_capacity_pow)
  have Dlt: "a < ?b" if "a \<in> set D" for a
    using that Dk by (auto simp: in_set_conv_nth)
  have l': "laid h' (dir v') (dcap v') (buffer_capacity v') D' Bs'"
    unfolding laid_def dcv' bcv' dv'
  proof (intro conjI)
    show "0 < ?d" "?d < brk h'" using d0 bh by simp_all
    show "length D' \<le> dcap v" using m2 by (simp add: D'_def)
    show "length Bs' = length D'" by (simp add: D'_def Bs'_def)
    show "distinct D'" by (simp add: D'_def)
    show "\<exists>E. dirs h' ?d = Some E \<and> length E = dcap v \<and> (\<forall>k<length D'. E ! k = Some (D' ! k))"
      using dh lE m2 by (auto simp: D'_def nth_append)
    show "\<forall>k<length D'. D' ! k < brk h' \<and> bufs h' (D' ! k) = Some (Bs' ! k) \<and> length (Bs' ! k) = 2 * ?bc"
    proof (intro allI impI)
      fix k assume "k < length D'"
      then have k: "k < m" by (simp add: D'_def)
      then have k2: "2 * k < length D" "2 * k + 1 < length D" using m2 n by simp_all
      have "?b + k \<notin> set (take (2 * m) D)" using Dlt by (auto dest!: in_set_takeD)
      then have "bufs h' (?b + k) = Some (Bs ! (2 * k) @ Bs ! (2 * k + 1))"
        using bufh [of "?b + k"] k by simp
      then show "D' ! k < brk h' \<and> bufs h' (D' ! k) = Some (Bs' ! k) \<and> length (Bs' ! k) = 2 * ?bc"
        using k bh Dk [OF k2(1)] Dk [OF k2(2)] by (simp add: D'_def Bs'_def)
    qed
  qed
  have fr1: "\<forall>a. a \<noteq> ?d \<longrightarrow> dirs h' a = dirs h a" using dh by simp
  have fr2: "\<forall>a. a < ?b \<and> a \<notin> set D \<longrightarrow> bufs h' a = bufs h a"
    using bufh by (auto dest: in_set_takeD)
  from ex l' bh fr1 fr2 show ?thesis by blast
qed


lemma downsize_buffers_body_exec:
  assumes "dirs h (dir v) = Some L" "k = dir_size v - i - 1" "k < dir_size v - 1"
    and "Suc (2 * k) < length L" "L ! k = Some a" "bufs h a = Some B" "length B = bc" "even bc"
    and "a < brk h"
  shows "downsize_buffers_body bc i (h, v) =
           Ok () (h\<lparr>bufs := ((bufs h)(brk h \<mapsto> take (bc div 2) B,
                                       Suc (brk h) \<mapsto> drop (bc div 2) B))(a := None),
                    dirs := (dirs h)(dir v \<mapsto> L[2 * k := Some (brk h), Suc (2 * k) := Some (Suc (brk h))]),
                    brk := Suc (Suc (brk h))\<rparr>, v)"
  using assms
  by (auto simp: downsize_buffers_body_def prim_defs Let_def elim!: evenE)

definition half :: "nat \<Rightarrow> nat \<Rightarrow> 'b list \<Rightarrow> 'b list" where
  "half bc r B = (if r = 0 then take (bc div 2) B else drop (bc div 2) B)"

definition new_at :: "addr \<Rightarrow> nat \<Rightarrow> nat \<Rightarrow> addr" where
  "new_at b n1 m = b + 2 * (n1 - 1 - m div 2) + m mod 2"

definition down_inv :: "'a heap \<Rightarrow> addr \<Rightarrow> nat \<Rightarrow> nat \<Rightarrow> addr list \<Rightarrow> 'a option list list
    \<Rightarrow> nat \<Rightarrow> nat \<Rightarrow> 'a heap \<Rightarrow> bool" where
  "down_inv h0 d cap bc D Bs n1 t h \<longleftrightarrow>
     brk h = brk h0 + 2 * t \<and>
     (\<exists>L. dirs h d = Some L \<and> length L = cap \<and>
          (\<forall>k<n1 - t. L ! k = Some (D ! k)) \<and>
          (\<forall>m. 2 * (n1 - t) \<le> m \<and> m < 2 * n1 \<longrightarrow> L ! m = Some (new_at (brk h0) n1 m))) \<and>
     (\<forall>a. a \<noteq> d \<longrightarrow> dirs h a = dirs h0 a) \<and>
     (\<forall>a. bufs h a =
        (if a \<in> set (drop (n1 - t) (take n1 D)) then None
         else if brk h0 \<le> a \<and> a < brk h0 + 2 * t
           then Some (half bc ((a - brk h0) mod 2) (Bs ! (n1 - 1 - (a - brk h0) div 2)))
           else bufs h0 a))"


lemma set_drop_take_step:
  assumes "k < n1" "n1 \<le> length D"
  shows "set (drop k (take n1 D)) = insert (D ! k) (set (drop (Suc k) (take n1 D)))"
proof -
  have "drop k (take n1 D) = take n1 D ! k # drop (Suc k) (take n1 D)"
    using Cons_nth_drop_Suc [of k "take n1 D"] assms by simp
  then show ?thesis using assms by simp
qed

lemma down_inv_step:
  assumes dist: "distinct D" and n1: "n1 \<le> length D"
    and Dk: "\<And>k. k < n1 \<Longrightarrow> D ! k < brk h0 \<and> bufs h0 (D ! k) = Some (Bs ! k) \<and> length (Bs ! k) = bc"
    and ev: "even bc" and cap: "2 * n1 < cap"
    and d: "dir v = d" and ds: "dir_size v = Suc n1"
    and inv: "down_inv h0 d cap bc D Bs n1 t h" and t: "t < n1"
  shows "\<exists>h1. downsize_buffers_body bc (Suc t) (h, v) = Ok () (h1, v) \<and>
              down_inv h0 d cap bc D Bs n1 (Suc t) h1"
proof -
  let ?b = "brk h0"
  define k where "k = n1 - 1 - t"
  have k: "k < n1" "n1 - t = Suc k" "n1 - Suc t = k" "k = dir_size v - Suc t - 1" "k < dir_size v - 1"
    using t ds by (simp_all add: k_def)
  from inv obtain L where bh: "brk h = ?b + 2 * t"
    and L: "dirs h d = Some L" "length L = cap"
    and Lold: "\<And>j. j < Suc k \<Longrightarrow> L ! j = Some (D ! j)"
    and Lnew: "\<And>m. 2 * Suc k \<le> m \<Longrightarrow> m < 2 * n1 \<Longrightarrow> L ! m = Some (new_at ?b n1 m)"
    and dirsh: "\<And>a. a \<noteq> d \<Longrightarrow> dirs h a = dirs h0 a"
    and bufh: "\<And>a. bufs h a =
        (if a \<in> set (drop (Suc k) (take n1 D)) then None
         else if ?b \<le> a \<and> a < ?b + 2 * t
           then Some (half bc ((a - ?b) mod 2) (Bs ! (n1 - 1 - (a - ?b) div 2)))
           else bufs h0 a)"
    unfolding down_inv_def k(2) by auto
  have nin: "D ! k \<notin> set (drop (Suc k) (take n1 D))"
    using dist k(1) n1 by (auto simp: in_set_conv_nth nth_eq_iff_index_eq)
  have bk: "bufs h (D ! k) = Some (Bs ! k)" using bufh [of "D ! k"] nin Dk [OF k(1)] by simp
  let ?L' = "L[2 * k := Some (brk h), Suc (2 * k) := Some (Suc (brk h))]"
  let ?h1 = "h\<lparr>bufs := ((bufs h)(brk h \<mapsto> take (bc div 2) (Bs ! k),
                                Suc (brk h) \<mapsto> drop (bc div 2) (Bs ! k)))(D ! k := None),
                dirs := (dirs h)(dir v \<mapsto> ?L'),
                brk := Suc (Suc (brk h))\<rparr>"
  have k2: "Suc (2 * k) < length L" using k(1) cap L(2) by simp
  have ex: "downsize_buffers_body bc (Suc t) (h, v) = Ok () (?h1, v)"
    by (rule downsize_buffers_body_exec [where k = k])
       (use L d k k2 Lold [of k] bk Dk [OF k(1)] ev bh in \<open>simp_all\<close>)
  have Dlt: "a < ?b" if "a \<in> set (drop j (take n1 D))" for a j
    using in_set_dropD [OF that] Dk by (auto simp: in_set_conv_nth)
  have tk: "t = n1 - 1 - k" using t by (simp add: k_def)
  have inv': "down_inv h0 d cap bc D Bs n1 (Suc t) ?h1"
    unfolding down_inv_def k(3)
  proof (intro conjI)
    show "brk ?h1 = ?b + 2 * Suc t" using bh by simp
    show "\<exists>L. dirs ?h1 d = Some L \<and> length L = cap \<and> (\<forall>j<k. L ! j = Some (D ! j)) \<and>
          (\<forall>m. 2 * k \<le> m \<and> m < 2 * n1 \<longrightarrow> L ! m = Some (new_at ?b n1 m))"
    proof (intro exI conjI allI impI)
      show "dirs ?h1 d = Some ?L'" using d by simp
      show "length ?L' = cap" using L(2) by simp
      show "?L' ! j = Some (D ! j)" if "j < k" for j
        using that Lold [of j] by simp
      show "?L' ! m = Some (new_at ?b n1 m)" if m: "2 * k \<le> m \<and> m < 2 * n1" for m
      proof -
        consider "m = 2 * k" | "m = Suc (2 * k)" | "2 * Suc k \<le> m"
          using m by atomize_elim arith
        then show ?thesis
        proof cases
          case 1
          then show ?thesis using k2 bh tk by (simp add: new_at_def)
        next
          case 2
          then show ?thesis using k2 bh tk by (simp add: new_at_def)
        next
          case 3
          then show ?thesis using Lnew [of m] m by simp
        qed
      qed
    qed
    show "\<forall>a. a \<noteq> d \<longrightarrow> dirs ?h1 a = dirs h0 a" using dirsh d by simp
    show "\<forall>a. bufs ?h1 a =
        (if a \<in> set (drop k (take n1 D)) then None
         else if ?b \<le> a \<and> a < ?b + 2 * Suc t
           then Some (half bc ((a - ?b) mod 2) (Bs ! (n1 - 1 - (a - ?b) div 2)))
           else bufs h0 a)"
    proof
      fix a
      consider "a = D ! k" | "a = brk h" | "a = Suc (brk h)" | "a \<noteq> D ! k" "a \<noteq> brk h" "a \<noteq> Suc (brk h)"
        by blast
      then show "bufs ?h1 a =
        (if a \<in> set (drop k (take n1 D)) then None
         else if ?b \<le> a \<and> a < ?b + 2 * Suc t
           then Some (half bc ((a - ?b) mod 2) (Bs ! (n1 - 1 - (a - ?b) div 2)))
           else bufs h0 a)"
      proof cases
        case 1
        then show ?thesis by (simp add: set_drop_take_step [OF k(1) n1])
      next
        case 2
        then have "a \<notin> set (drop k (take n1 D))" using Dlt [of a k] bh by auto
        moreover have "a \<noteq> D ! k" using Dk [OF k(1)] 2 bh by auto
        moreover have "(a - ?b) mod 2 = 0" "(a - ?b) div 2 = t" using 2 bh by simp_all
        moreover have "n1 - 1 - t = k" by (simp add: k_def)
        moreover have "?b \<le> a \<and> a < ?b + 2 * Suc t" using 2 bh by simp
        ultimately show ?thesis using 2 by (simp add: half_def)
      next
        case 3
        then have "a \<notin> set (drop k (take n1 D))" using Dlt [of a k] bh by auto
        moreover have "a \<noteq> D ! k" using Dk [OF k(1)] 3 bh by auto
        moreover have "(a - ?b) mod 2 = 1" "(a - ?b) div 2 = t" using 3 bh by simp_all
        moreover have "n1 - 1 - t = k" by (simp add: k_def)
        moreover have "?b \<le> a \<and> a < ?b + 2 * Suc t" using 3 bh by simp
        ultimately show ?thesis using 3 by (simp add: half_def)
      next
        case 4
        have "a \<in> set (drop k (take n1 D)) \<longleftrightarrow> a \<in> set (drop (Suc k) (take n1 D))"
          using 4 by (simp add: set_drop_take_step [OF k(1) n1])
        moreover have "?b \<le> a \<and> a < ?b + 2 * Suc t \<longleftrightarrow> ?b \<le> a \<and> a < ?b + 2 * t"
          using 4 bh by auto
        ultimately show ?thesis using 4 bufh [of a] by simp
      qed
    qed
  qed
  from ex inv' show ?thesis by blast
qed

lemma down_inv_loop:
  assumes dist: "distinct D" and n1: "n1 \<le> length D"
    and Dk: "\<And>k. k < n1 \<Longrightarrow> D ! k < brk h0 \<and> bufs h0 (D ! k) = Some (Bs ! k) \<and> length (Bs ! k) = bc"
    and ev: "even bc" and cap: "2 * n1 < cap"
    and d: "dir v = d" and ds: "dir_size v = Suc n1"
  shows "down_inv h0 d cap bc D Bs n1 t h \<Longrightarrow> t \<le> n1 \<Longrightarrow>
         \<exists>h'. downsize_buffers_loop bc (Suc t) (h, v) = Ok () (h', v) \<and>
              down_inv h0 d cap bc D Bs n1 n1 h'"
proof (induction "n1 - t" arbitrary: t h)
  case 0
  then have "t = n1" by simp
  moreover have "\<not> Suc n1 < dir_size v" using ds by simp
  ultimately show ?case using 0
    by (subst downsize_buffers_loop.simps) simp
next
  case (Suc m)
  then have t: "t < n1" by simp
  from down_inv_step [OF dist n1 Dk ev cap d ds Suc.prems(1) t]
  obtain h1 where h1: "downsize_buffers_body bc (Suc t) (h, v) = Ok () (h1, v)"
      "down_inv h0 d cap bc D Bs n1 (Suc t) h1" by blast
  have "m = n1 - Suc t" using Suc.hyps(2) by simp
  from Suc.hyps(1) [OF this h1(2)] t
  obtain h' where "downsize_buffers_loop bc (Suc (Suc t)) (h1, v) = Ok () (h', v)"
      "down_inv h0 d cap bc D Bs n1 n1 h'" by auto
  moreover have "Suc t < dir_size v" using t ds by simp
  ultimately show ?case
    using h1(1) by (subst downsize_buffers_loop.simps) simp
qed


lemma new_at_sub: "new_at b n1 m - b = 2 * (n1 - 1 - m div 2) + m mod 2"
  by (simp add: new_at_def)

lemma new_at_bounds: "m < 2 * n1 \<Longrightarrow> b \<le> new_at b n1 m \<and> new_at b n1 m < b + 2 * n1"
proof -
  assume m: "m < 2 * n1"
  then have "m div 2 < n1" by simp
  then have "2 * (n1 - 1 - m div 2) + 2 \<le> 2 * n1" by simp
  moreover have "m mod 2 < 2" by simp
  ultimately show ?thesis unfolding new_at_def by linarith
qed

lemma new_at_div: "m < 2 * n1 \<Longrightarrow> (new_at b n1 m - b) div 2 = n1 - 1 - m div 2"
  unfolding new_at_sub by simp

lemma new_at_mod: "(new_at b n1 m - b) mod 2 = m mod 2"
  unfolding new_at_sub by simp

lemma new_at_inj:
  assumes "m < 2 * n1" "m' < 2 * n1" "new_at b n1 m = new_at b n1 m'"
  shows "m = m'"
proof -
  have "n1 - 1 - m div 2 = n1 - 1 - m' div 2"
    using new_at_div [OF assms(1), of b] new_at_div [OF assms(2), of b] assms(3) by simp
  moreover have "m div 2 < n1" "m' div 2 < n1" using assms(1,2) by simp_all
  ultimately have "m div 2 = m' div 2" by linarith
  moreover have "m mod 2 = m' mod 2"
    using new_at_mod [of b n1 m] new_at_mod [of b n1 m'] assms(3) by simp
  ultimately show ?thesis by (metis div_mult_mod_eq)
qed

lemma distinct_new_at: "distinct (map (new_at b n1) [0..<2 * n1])"
  by (auto simp: distinct_map inj_on_def dest: new_at_inj)

lemma down_inv_0:
  assumes "dirs h0 d = Some E" "length E = cap" "\<And>k. k < n1 \<Longrightarrow> E ! k = Some (D ! k)"
  shows "down_inv h0 d cap bc D Bs n1 0 h0"
  using assms by (auto simp: down_inv_def)

lemma concat_halves:
  "n \<le> length Bs \<Longrightarrow> \<forall>B\<in>set Bs. length B = bc \<Longrightarrow>
     concat (map (\<lambda>m. half bc (m mod 2) (Bs ! (m div 2))) [0..<2 * n]) = concat (take n Bs)"
  by (induction n) (simp_all add: take_Suc_conv_app_nth half_def)


lemma downsize_buffers_spec:
  assumes l: "laid h (dir v) (dcap v) (buffer_capacity v) D Bs"
    and n: "length D = dir_size v" and big: "big_buffer v" and ne: "\<not> extra_buffer v"
    and lbs: "last_buffer_size v = 0" and room: "dir_size v * 2 < dcap v" and pos: "0 < dir_size v"
  defines "n1 \<equiv> dir_size v - 1"
  defines "bc \<equiv> buffer_capacity v"
  defines "v' \<equiv> v\<lparr>dir_size := 2 * dir_size v - 1,
                    log_buffer_capacity := log_buffer_capacity v - 1, big_buffer := False\<rparr>"
  defines "D' \<equiv> map (new_at (brk h) n1) [0..<2 * n1] @ [brk h + 2 * n1]"
  defines "Bs' \<equiv> map (\<lambda>m. half bc (m mod 2) (Bs ! (m div 2))) [0..<2 * n1] @ [replicate (bc div 2) None]"
  shows "\<exists>h'. downsize_buffers (h, v) = Ok () (h', v') \<and>
           laid h' (dir v') (dcap v') (buffer_capacity v') D' Bs' \<and>
           brk h' = brk h + 2 * n1 + 1 \<and>
           (\<forall>a. a \<noteq> dir v \<longrightarrow> dirs h' a = dirs h a) \<and>
           (\<forall>a. a < brk h \<and> a \<notin> set D \<longrightarrow> bufs h' a = bufs h a)"
proof -
  let ?d = "dir v" and ?b = "brk h" and ?cap = "dcap v"
  let ?last = "D ! (dir_size v - 1)"
  let ?h0 = "h\<lparr>bufs := (bufs h)(?last := None)\<rparr>"
  from l obtain E where E: "dirs h ?d = Some E" "length E = ?cap"
    and Ek: "\<And>k. k < length D \<Longrightarrow> E ! k = Some (D ! k)"
    unfolding laid_def by auto
  from l have d0: "0 < ?d" "?d < ?b" and lB: "length Bs = length D" and dist: "distinct D"
    and Dk: "\<And>k. k < length D \<Longrightarrow> D ! k < ?b \<and> bufs h (D ! k) = Some (Bs ! k) \<and> length (Bs ! k) = bc"
    unfolding laid_def bc_def by auto
  have ds: "dir_size v = Suc n1" using pos by (simp add: n1_def)
  have dc: "?cap = 2 ^ (log_buffer_capacity v - 1)" using big by (simp add: dcap_def)
  have "2 < ?cap" using room pos by simp
  then have "2 ^ 1 < (2::nat) ^ (log_buffer_capacity v - 1)" unfolding dc by simp
  then have "1 < log_buffer_capacity v - 1" by (simp only: power_strict_increasing_iff)
  then have "log_buffer_capacity v = Suc (Suc (Suc (log_buffer_capacity v - 3)))" by simp
  then obtain q where q: "log_buffer_capacity v = Suc (Suc (Suc q))" ..
  have bcq: "bc = 2 ^ Suc (Suc (Suc q))" by (simp add: bc_def buffer_capacity_pow q)
  have ev: "even bc" and bc2: "bc div 2 = 2 ^ Suc (Suc q)" unfolding bcq by simp_all
  have last: "bufs h ?last = Some (Bs ! (dir_size v - 1))" "?last < ?b"
    using Dk [of "dir_size v - 1"] n pos by simp_all
  have Elast: "E ! (dir_size v - 1) = Some ?last" "dir_size v - 1 < length E"
    using Ek [of "dir_size v - 1"] n pos room E(2) by simp_all
  have n1D: "n1 \<le> length D" using n ds by simp
  have Dk0: "D ! k < brk ?h0 \<and> bufs ?h0 (D ! k) = Some (Bs ! k) \<and> length (Bs ! k) = bc" if "k < n1" for k
  proof -
    have "k < length D" "k \<noteq> dir_size v - 1" using that n ds by simp_all
    then have "D ! k \<noteq> ?last" using dist n pos by (simp add: nth_eq_iff_index_eq)
    then show ?thesis using Dk [OF \<open>k < length D\<close>] by simp
  qed
  have cap: "2 * n1 < ?cap" using room ds by simp
  have i0: "down_inv ?h0 ?d ?cap bc D Bs n1 0 ?h0"
    by (rule down_inv_0 [where E = E]) (use E Ek n ds in \<open>simp_all\<close>)
  from down_inv_loop [OF dist n1D Dk0 ev cap refl ds i0]
  obtain h1 where loop: "downsize_buffers_loop bc (Suc 0) (?h0, v) = Ok () (h1, v)"
    and inv: "down_inv ?h0 ?d ?cap bc D Bs n1 n1 h1" by auto
  from inv obtain L where bh: "brk h1 = ?b + 2 * n1"
    and L: "dirs h1 ?d = Some L" "length L = ?cap"
    and Lnew: "\<And>m. m < 2 * n1 \<Longrightarrow> L ! m = Some (new_at ?b n1 m)"
    and dirsh: "\<And>a. a \<noteq> ?d \<Longrightarrow> dirs h1 a = dirs h a"
    and bufh: "\<And>a. bufs h1 a =
        (if a \<in> set (take n1 D) then None
         else if ?b \<le> a \<and> a < ?b + 2 * n1
           then Some (half bc ((a - ?b) mod 2) (Bs ! (n1 - 1 - (a - ?b) div 2)))
           else bufs ?h0 a)"
    unfolding down_inv_def by auto
  let ?h' = "h1\<lparr>bufs := (bufs h1)(brk h1 \<mapsto> replicate (bc div 2) None),
               dirs := (dirs h1)(?d \<mapsto> L[2 * n1 := Some (brk h1)]),
               brk := Suc (brk h1)\<rparr>"
  have bcv': "buffer_capacity v' = bc div 2" and dcv': "dcap v' = ?cap" and dv': "dir v' = ?d"
    using big by (simp_all add: v'_def buffer_capacity_pow bc2 q dcap_def)
  have ex: "downsize_buffers (h, v) = Ok () (?h', v')"
    using lbs ne big room last Elast E loop L cap ds
    unfolding bcq
    by (simp add: downsize_buffers_def dir_capacity_exec prim_defs Let_def q
        even_AND_1 v'_def buffer_capacity_pow)
  have Dlt: "a < ?b" if "a \<in> set D" for a
    using that Dk by (auto simp: in_set_conv_nth)
  have l': "laid ?h' (dir v') (dcap v') (buffer_capacity v') D' Bs'"
    unfolding laid_def dcv' bcv' dv'
  proof (intro conjI)
    show "0 < ?d" "?d < brk ?h'" using d0 bh by simp_all
    show "length D' \<le> ?cap" using cap by (simp add: D'_def)
    show "length Bs' = length D'" by (simp add: D'_def Bs'_def)
    show "distinct D'"
    proof -
      have "?b + 2 * n1 \<notin> set (map (new_at ?b n1) [0..<2 * n1])"
      proof
        assume "?b + 2 * n1 \<in> set (map (new_at ?b n1) [0..<2 * n1])"
        then obtain m where "m < 2 * n1" "new_at ?b n1 m = ?b + 2 * n1" by auto
        with new_at_bounds [of m n1 ?b] show False by simp
      qed
      then show ?thesis using distinct_new_at [of ?b n1] by (simp add: D'_def)
    qed
    show "\<exists>E. dirs ?h' ?d = Some E \<and> length E = ?cap \<and> (\<forall>k<length D'. E ! k = Some (D' ! k))"
    proof (intro exI conjI allI impI)
      show "dirs ?h' ?d = Some (L[2 * n1 := Some (brk h1)])" by simp
      show "length (L[2 * n1 := Some (brk h1)]) = ?cap" using L by simp
      show "L[2 * n1 := Some (brk h1)] ! k = Some (D' ! k)" if "k < length D'" for k
      proof (cases "k < 2 * n1")
        case True
        then show ?thesis using Lnew [OF True] by (simp add: D'_def nth_append)
      next
        case False
        then have "k = 2 * n1" using that by (simp add: D'_def)
        then show ?thesis using cap L bh by (simp add: D'_def nth_append)
      qed
    qed
    show "\<forall>k<length D'. D' ! k < brk ?h' \<and> bufs ?h' (D' ! k) = Some (Bs' ! k) \<and> length (Bs' ! k) = bc div 2"
    proof (intro allI impI)
      fix k assume kl: "k < length D'"
      show "D' ! k < brk ?h' \<and> bufs ?h' (D' ! k) = Some (Bs' ! k) \<and> length (Bs' ! k) = bc div 2"
      proof (cases "k < 2 * n1")
        case True
        let ?a = "new_at ?b n1 k"
        have a: "?b \<le> ?a" "?a < ?b + 2 * n1" using new_at_bounds [OF True] by simp_all
        have "?a \<notin> set (take n1 D)" using a(1) Dlt [of ?a] by (auto dest!: in_set_takeD)
        moreover have "k div 2 < n1" using True by simp
        then have "n1 - 1 - (n1 - 1 - k div 2) = k div 2" by simp
        ultimately have "bufs h1 ?a = Some (half bc (k mod 2) (Bs ! (k div 2)))"
          using bufh [of ?a] a new_at_div [OF True, of ?b] new_at_mod [of ?b n1 k] by simp
        moreover have "length (Bs ! (k div 2)) = bc" using Dk0 [OF \<open>k div 2 < n1\<close>] by simp
        then have "length (half bc (k mod 2) (Bs ! (k div 2))) = bc div 2"
          using ev by (auto simp: half_def elim!: evenE)
        ultimately show ?thesis using True a bh by (simp add: D'_def Bs'_def nth_append)
      next
        case False
        then have "k = 2 * n1" using kl by (simp add: D'_def)
        then show ?thesis using bh by (simp add: D'_def Bs'_def nth_append)
      qed
    qed
  qed
  have fr1: "\<forall>a. a \<noteq> ?d \<longrightarrow> dirs ?h' a = dirs h a" using dirsh by simp
  have fr2: "\<forall>a. a < ?b \<and> a \<notin> set D \<longrightarrow> bufs ?h' a = bufs h a"
  proof (intro allI impI)
    fix a assume a: "a < ?b \<and> a \<notin> set D"
    then have "a \<notin> set (take n1 D)" "a \<noteq> ?last" using n pos by (auto dest: in_set_takeD)
    then show "bufs ?h' a = bufs h a" using bufh [of a] a bh by simp
  qed
  have "brk ?h' = ?b + 2 * n1 + 1" using bh by simp
  with ex l' fr1 fr2 show ?thesis by blast
qed


lemma upsize_dir_spec:
  assumes l: "laid h (dir v) (dcap v) (buffer_capacity v) D Bs"
    and big: "big_buffer v" and lbc: "0 < log_buffer_capacity v"
  defines "v' \<equiv> v\<lparr>dir := brk h, big_buffer := False\<rparr>"
  shows "\<exists>h'. upsize_dir (h, v) = Ok () (h', v') \<and>
           laid h' (dir v') (dcap v') (buffer_capacity v') D Bs \<and>
           brk h' = Suc (brk h) \<and> bufs h' = bufs h \<and>
           (\<forall>a. a \<noteq> dir v \<and> a \<noteq> brk h \<longrightarrow> dirs h' a = dirs h a)"
proof -
  let ?cap = "dcap v"
  from l obtain E where E: "dirs h (dir v) = Some E" "length E = ?cap"
    and Ek: "\<And>k. k < length D \<Longrightarrow> E ! k = Some (D ! k)"
    unfolding laid_def by auto
  from l have d0: "0 < dir v" "dir v < brk h" and rest: "length D \<le> ?cap" "length Bs = length D" "distinct D"
    "\<And>k. k < length D \<Longrightarrow> D ! k < Suc (brk h)"
    "\<And>k. k < length D \<Longrightarrow> bufs h (D ! k) = Some (Bs ! k)"
    "\<And>k. k < length D \<Longrightarrow> length (Bs ! k) = buffer_capacity v"
    unfolding laid_def by (auto intro: less_SucI)
  let ?E' = "take ?cap E @ drop ?cap (replicate (2 * ?cap) None)"
  let ?h' = "h\<lparr>dirs := ((dirs h)(brk h \<mapsto> ?E'))(dir v := None), brk := Suc (brk h)\<rparr>"
  have ex: "upsize_dir (h, v) = Ok () (?h', v')"
    using big lbc E d0
    by (simp add: upsize_dir_def dir_capacity_exec prim_defs Let_def v'_def)
  have dc: "dcap v' = 2 * ?cap"
    using big lbc by (cases "log_buffer_capacity v") (simp_all add: dcap_def v'_def)
  have l': "laid ?h' (dir v') (dcap v') (buffer_capacity v') D Bs"
    unfolding laid_def dc
    using d0 rest E Ek by (auto simp: v'_def buffer_capacity_def nth_append)
  from ex l' show ?thesis by auto
qed

lemma downsize_dir_spec:
  assumes l: "laid h (dir v) (dcap v) (buffer_capacity v) D Bs"
    and nb: "\<not> big_buffer v" and lbc: "0 < log_buffer_capacity v"
    and n: "length D = dir_size v" and room: "dir_size v \<le> dcap v div 2"
  defines "v' \<equiv> v\<lparr>dir := brk h, big_buffer := True\<rparr>"
  shows "\<exists>h'. downsize_dir (h, v) = Ok () (h', v') \<and>
           laid h' (dir v') (dcap v') (buffer_capacity v') D Bs \<and>
           brk h' = Suc (brk h) \<and> bufs h' = bufs h \<and>
           (\<forall>a. a \<noteq> dir v \<and> a \<noteq> brk h \<longrightarrow> dirs h' a = dirs h a)"
proof -
  let ?cap = "dcap v" and ?n = "dir_size v"
  from l obtain E where E: "dirs h (dir v) = Some E" "length E = ?cap"
    and Ek: "\<And>k. k < length D \<Longrightarrow> E ! k = Some (D ! k)"
    unfolding laid_def by auto
  from l have d0: "0 < dir v" "dir v < brk h" and rest: "length D \<le> ?cap" "length Bs = length D" "distinct D"
    "\<And>k. k < length D \<Longrightarrow> D ! k < Suc (brk h)"
    "\<And>k. k < length D \<Longrightarrow> bufs h (D ! k) = Some (Bs ! k)"
    "\<And>k. k < length D \<Longrightarrow> length (Bs ! k) = buffer_capacity v"
    unfolding laid_def by (auto intro: less_SucI)
  let ?E' = "take ?n E @ drop ?n (replicate (?cap div 2) None)"
  let ?h' = "h\<lparr>dirs := ((dirs h)(brk h \<mapsto> ?E'))(dir v := None), brk := Suc (brk h)\<rparr>"
  have ex: "downsize_dir (h, v) = Ok () (?h', v')"
    using nb lbc E d0 room
    by (simp add: downsize_dir_def dir_capacity_exec prim_defs Let_def v'_def)
  have dc: "dcap v' = ?cap div 2"
    using nb lbc by (cases "log_buffer_capacity v") (simp_all add: dcap_def v'_def)
  have l': "laid ?h' (dir v') (dcap v') (buffer_capacity v') D Bs"
    unfolding laid_def dc
    using d0 rest E Ek n room by (auto simp: v'_def buffer_capacity_def nth_append)
  from ex l' show ?thesis by auto
qed

lemma dcap_upd [simp]:
  "dcap (v\<lparr>dir := a\<rparr>) = dcap v"
  "dcap (v\<lparr>dir_size := n\<rparr>) = dcap v"
  "dcap (v\<lparr>last_buffer_size := n\<rparr>) = dcap v"
  "dcap (v\<lparr>extra_buffer := e\<rparr>) = dcap v"
  by (simp_all add: dcap_def)

lemma buffer_capacity_upd [simp]:
  "buffer_capacity (v\<lparr>dir := a\<rparr>) = buffer_capacity v"
  "buffer_capacity (v\<lparr>dir_size := n\<rparr>) = buffer_capacity v"
  "buffer_capacity (v\<lparr>last_buffer_size := n\<rparr>) = buffer_capacity v"
  "buffer_capacity (v\<lparr>big_buffer := e\<rparr>) = buffer_capacity v"
  "buffer_capacity (v\<lparr>extra_buffer := e\<rparr>) = buffer_capacity v"
  by (simp_all add: buffer_capacity_def)

lemma caps:
  assumes "0 < log_buffer_capacity v"
  shows "buffer_capacity v = (if big_buffer v then 2 * dcap v else dcap v)"
    and "0 < dcap v" and "even (buffer_capacity v)" and "\<not> big_buffer v \<Longrightarrow> even (dcap v)"
  using assms by (cases "log_buffer_capacity v"; simp add: dcap_def buffer_capacity_pow)+

lemma dcap_big_off:
  "0 < log_buffer_capacity v \<Longrightarrow> big_buffer v \<Longrightarrow> dcap (v\<lparr>big_buffer := False\<rparr>) = 2 * dcap v"
  by (cases "log_buffer_capacity v") (simp_all add: dcap_def)

lemma dcap_big_on:
  "0 < log_buffer_capacity v \<Longrightarrow> \<not> big_buffer v \<Longrightarrow> dcap (v\<lparr>big_buffer := True\<rparr>) = dcap v div 2"
  by (cases "log_buffer_capacity v") (simp_all add: dcap_def)

lemma caps_up:
  "\<not> big_buffer v \<Longrightarrow>
     dcap (v\<lparr>log_buffer_capacity := log_buffer_capacity v + 1, big_buffer := True\<rparr>) = dcap v"
  "buffer_capacity (v\<lparr>log_buffer_capacity := log_buffer_capacity v + 1\<rparr>) = 2 * buffer_capacity v"
  by (simp_all add: dcap_def buffer_capacity_pow)

lemma caps_down:
  "big_buffer v \<Longrightarrow>
     dcap (v\<lparr>log_buffer_capacity := log_buffer_capacity v - 1, big_buffer := False\<rparr>) = dcap v"
  "0 < log_buffer_capacity v \<Longrightarrow>
     buffer_capacity (v\<lparr>log_buffer_capacity := log_buffer_capacity v - 1\<rparr>) = buffer_capacity v div 2"
  by (cases "log_buffer_capacity v"; simp add: dcap_def buffer_capacity_pow)+


lemma shape_iff:
  "shape v \<longleftrightarrow>
     0 < dir v \<and> 0 < log_buffer_capacity v \<and> dir_size v \<le> dcap v \<and> 0 < dir_size v \<and>
     last_buffer_size v < buffer_capacity v \<and>
     (extra_buffer v \<longrightarrow> 0 < last_buffer_size v \<and> dir_size v < dcap v \<and> dcap v < 4 * dir_size v + 4) \<and>
     (\<not> extra_buffer v \<longrightarrow> dcap v < 4 * dir_size v \<or>
        dir_size v = 1 \<and> \<not> big_buffer v \<and> log_buffer_capacity v = 2 \<and> dcap v = 4)"
proof -
  have "dcap v = 4" if "\<not> big_buffer v" "log_buffer_capacity v = 2"
    using that by (simp add: dcap_def)
  then show ?thesis
    unfolding shape_def valid_def count_def by (cases "extra_buffer v") auto
qed

lemma size_of_full:
  "0 < dir_size v \<Longrightarrow> last_buffer_size v + 1 = buffer_capacity v \<Longrightarrow>
     size_of v + 1 = dir_size v * buffer_capacity v"
  by (cases "dir_size v") (simp_all add: size_of_def)

lemma shape_push_plain:
  assumes "shape v" "last_buffer_size v + 1 \<noteq> buffer_capacity v"
    and v': "dir v' = dir v" "dir_size v' = dir_size v" "last_buffer_size v' = last_buffer_size v + 1"
      "log_buffer_capacity v' = log_buffer_capacity v" "big_buffer v' = big_buffer v"
      "extra_buffer v' = extra_buffer v"
  shows "shape v'" "size_of v' = size_of v + 1"
proof -
  have c: "dcap v' = dcap v" "buffer_capacity v' = buffer_capacity v"
    by (simp_all add: dcap_def buffer_capacity_def v')
  show "shape v'" using assms(1,2) by (auto simp: shape_iff c v')
  show "size_of v' = size_of v + 1" by (simp add: size_of_def c v')
qed

lemma shape_push_promote:
  assumes "shape v" "last_buffer_size v + 1 = buffer_capacity v" "extra_buffer v \<or> dir_size v \<noteq> dcap v"
    and v': "dir v' = dir v" "dir_size v' = dir_size v + 1" "last_buffer_size v' = 0"
      "log_buffer_capacity v' = log_buffer_capacity v" "big_buffer v' = big_buffer v"
      "\<not> extra_buffer v'"
  shows "shape v'" "size_of v' = size_of v + 1"
proof -
  have c: "dcap v' = dcap v" "buffer_capacity v' = buffer_capacity v"
    by (simp_all add: dcap_def buffer_capacity_def v')
  show "shape v'" using assms(1,2,3) by (auto simp: shape_iff c v')
  have "0 < dir_size v" using assms(1) by (simp add: shape_iff)
  from size_of_full [OF this assms(2)] show "size_of v' = size_of v + 1"
    by (simp add: size_of_def c v')
qed

lemma shape_push_updir:
  assumes "shape v" "last_buffer_size v + 1 = buffer_capacity v" "\<not> extra_buffer v"
    "dir_size v = dcap v" "big_buffer v"
    and v': "0 < dir v'" "dir_size v' = dir_size v + 1" "last_buffer_size v' = 0"
      "log_buffer_capacity v' = log_buffer_capacity v" "\<not> big_buffer v'"
      "\<not> extra_buffer v'"
  shows "shape v'" "size_of v' = size_of v + 1"
proof -
  have lbc: "0 < log_buffer_capacity v" and ds: "0 < dir_size v" using assms(1) by (simp_all add: shape_iff)
  have c: "dcap v' = 2 * dcap v" "buffer_capacity v' = buffer_capacity v"
    using lbc assms(5) by (cases "log_buffer_capacity v"; simp add: dcap_def buffer_capacity_def v')+
  show "shape v'" using assms(1-5) caps(2) [OF lbc] by (auto simp: shape_iff c v')
  from size_of_full [OF ds assms(2)] show "size_of v' = size_of v + 1"
    by (simp add: size_of_def c v')
qed

lemma shape_push_upbuf:
  assumes "shape v" "last_buffer_size v + 1 = buffer_capacity v" "\<not> extra_buffer v"
    "dir_size v = dcap v" "\<not> big_buffer v"
    and v': "dir v' = dir v" "dir_size v' = dcap v div 2 + 1" "last_buffer_size v' = 0"
      "log_buffer_capacity v' = log_buffer_capacity v + 1" "big_buffer v'"
      "\<not> extra_buffer v'"
  shows "shape v'" "size_of v' = size_of v + 1"
proof -
  have lbc: "0 < log_buffer_capacity v" and ds: "0 < dir_size v" using assms(1) by (simp_all add: shape_iff)
  have dc: "dcap v' = dcap v" and bc: "buffer_capacity v' = 2 * buffer_capacity v"
    using assms(5) by (simp_all add: dcap_def buffer_capacity_pow v')
  obtain c where c: "dcap v = 2 * c" using caps(4) [OF lbc assms(5)] by (auto elim: evenE)
  have cpos: "0 < c" using caps(2) [OF lbc] c by simp
  show "shape v'"
    using assms(1) c cpos by (simp add: shape_iff dc bc v')
  have "size_of v' = c * (2 * buffer_capacity v)" by (simp add: size_of_def v' bc c)
  with size_of_full [OF ds assms(2)] assms(4) c show "size_of v' = size_of v + 1" by simp
qed

lemma take_Suc_update_snoc:
  "j < length B \<Longrightarrow> take (Suc j) (B[j := c]) = take j B @ [c]"
  by (simp add: take_Suc_conv_app_nth)

lemma elems_store:
  fixes c :: "'a option"
  assumes n: "0 < dir_size v" "dir_size v \<le> length Bs"
    and j: "last_buffer_size v < length (Bs ! (dir_size v - 1))"
  defines "Bs1 \<equiv> Bs[dir_size v - 1 := (Bs ! (dir_size v - 1))[last_buffer_size v := c]]"
  shows "elems (v\<lparr>last_buffer_size := last_buffer_size v + 1\<rparr>) Bs1 = elems v Bs @ [c]"
    and "Suc (last_buffer_size v) = length (Bs ! (dir_size v - 1)) \<Longrightarrow>
           concat (take (dir_size v) Bs1) = elems v Bs @ [c]"
proof -
  let ?m = "dir_size v - 1" and ?j = "last_buffer_size v"
  have m: "?m < length Bs" using n by simp
  have t: "take ?m Bs1 = take ?m Bs" and e: "Bs1 ! ?m = (Bs ! ?m)[?j := c]"
    using m by (simp_all add: Bs1_def)
  show "elems (v\<lparr>last_buffer_size := ?j + 1\<rparr>) Bs1 = elems v Bs @ [c]"
    using j t e by (simp add: elems_def take_Suc_update_snoc)
  assume full: "Suc ?j = length (Bs ! ?m)"
  have "take (dir_size v) Bs1 = take ?m Bs1 @ [Bs1 ! ?m]"
    using take_Suc_conv_app_nth [of ?m Bs1] m n by (simp add: Bs1_def)
  moreover have "(Bs ! ?m)[?j := c] = take ?j (Bs ! ?m) @ [c]"
    using take_Suc_update_snoc [OF j, of c] full by simp
  ultimately show "concat (take (dir_size v) Bs1) = elems v Bs @ [c]"
    using t e by (simp add: elems_def)
qed

lemma elems_lbs0:
  "last_buffer_size v = 0 \<Longrightarrow> elems v Bs = concat (take (dir_size v - 1) Bs)"
  by (simp add: elems_def)

lemma rep_last:
  assumes r: "rep (h, v) D Bs"
  shows "dir_size v - 1 < length D" "length Bs = length D"
    "bufs h (D ! (dir_size v - 1)) = Some (Bs ! (dir_size v - 1))"
    "length (Bs ! (dir_size v - 1)) = buffer_capacity v"
    "\<exists>E. dirs h (dir v) = Some E \<and> length E = dcap v \<and> (\<forall>k<length D. E ! k = Some (D ! k))"
    "dir v < brk h" "\<forall>a\<in>set D. a < brk h"
proof -
  from r have l: "laid h (dir v) (dcap v) (buffer_capacity v) D Bs"
    and sh: "shape v" and c: "length D = count v"
    by (simp_all add: rep_def)
  from sh have "0 < dir_size v" by (simp add: shape_iff)
  then show k: "dir_size v - 1 < length D" using c by (simp add: count_def)
  show "length Bs = length D"
    "bufs h (D ! (dir_size v - 1)) = Some (Bs ! (dir_size v - 1))"
    "length (Bs ! (dir_size v - 1)) = buffer_capacity v"
    "\<exists>E. dirs h (dir v) = Some E \<and> length E = dcap v \<and> (\<forall>k<length D. E ! k = Some (D ! k))"
    "dir v < brk h" "\<forall>a\<in>set D. a < brk h"
    using l k unfolding laid_def by (auto simp: in_set_conv_nth)
qed

lemma push_back_plain:
  assumes r: "rep (h, v) D Bs" and p: "last_buffer_size v + 1 \<noteq> buffer_capacity v"
  shows "\<exists>h' v' D' Bs'. push_back x (h, v) = Ok () (h', v') \<and> rep (h', v') D' Bs' \<and>
           elems v' Bs' = elems v Bs @ [Some x] \<and>
           frame h (insert (dir v) (set D)) h' (insert (dir v') (set D'))"
proof -
  let ?m = "dir_size v - 1" and ?j = "last_buffer_size v"
  let ?B = "(Bs ! ?m)[?j := Some x]"
  let ?h = "h\<lparr>bufs := (bufs h)(D ! ?m \<mapsto> ?B)\<rparr>"
  let ?v = "v\<lparr>last_buffer_size := ?j + 1\<rparr>"
  let ?Bs = "Bs[?m := ?B]"
  from r have l: "laid h (dir v) (dcap v) (buffer_capacity v) D Bs"
    and sh: "shape v" and c: "length D = count v"
    by (simp_all add: rep_def)
  note la = rep_last [OF r]
  from la(5) obtain E where E: "dirs h (dir v) = Some E" "length E = dcap v"
    "\<And>k. k < length D \<Longrightarrow> E ! k = Some (D ! k)" by blast
  have v: "valid v" using sh by (simp add: shape_def)
  have f: "0 < dir_size v" "?j < buffer_capacity v" "dir_size v \<le> dcap v"
    using sh by (simp_all add: shape_iff)
  have sh': "shape ?v" and sz: "size_of ?v = size_of v + 1"
    by (rule shape_push_plain [OF sh p]; simp)+
  have v': "valid ?v" using sh' by (simp add: shape_def)
  have ex: "push_back x (h, v) = Ok () (?h, ?v)"
    using v v' f la E(1,2) E(3) [OF la(1)] p sz
    by (simp add: push_back_def size_vec_exec assert_valid_exec prim_defs)
  have l': "laid ?h (dir v) (dcap v) (buffer_capacity v) D ?Bs"
    by (rule laid_put [OF l la(1)]) (use la in simp_all)
  have r': "rep (?h, ?v) D ?Bs" using l' sh' c by (simp add: rep_def count_def)
  have e: "elems ?v ?Bs = elems v Bs @ [Some x]"
    by (rule elems_store(1)) (use f la in simp_all)
  have fr: "frame h (insert (dir v) (set D)) ?h (insert (dir ?v) (set D))"
    using la(1) by (auto simp: frame_def)
  from ex r' e fr show ?thesis by blast
qed


lemma laid_snoc:
  assumes l: "laid h d cap bc D Bs" and n: "length D < cap" and E: "dirs h d = Some E"
    and h': "bufs h' = (bufs h)(brk h \<mapsto> replicate bc None)"
      "dirs h' = (dirs h)(d \<mapsto> E[length D := Some (brk h)])" "brk h' = Suc (brk h)"
  shows "laid h' d cap bc (D @ [brk h]) (Bs @ [replicate bc None])"
proof -
  from l E have f: "0 < d" "d < brk h" "length Bs = length D" "distinct D" "length E = cap"
    "\<And>k. k < length D \<Longrightarrow> E ! k = Some (D ! k)"
    "\<And>k. k < length D \<Longrightarrow> D ! k < brk h"
    "\<And>k. k < length D \<Longrightarrow> bufs h (D ! k) = Some (Bs ! k)"
    "\<And>k. k < length D \<Longrightarrow> length (Bs ! k) = bc"
    unfolding laid_def by auto
  have nin: "brk h \<notin> set D"
  proof
    assume "brk h \<in> set D"
    then obtain i where "i < length D" "D ! i = brk h" by (auto simp: in_set_conv_nth)
    with f(7) [of i] show False by simp
  qed
  show ?thesis
    unfolding laid_def
  proof (intro conjI)
    show "0 < d" "d < brk h'" using f h' by simp_all
    show "length (D @ [brk h]) \<le> cap" using n by simp
    show "length (Bs @ [replicate bc None]) = length (D @ [brk h])" using f by simp
    show "distinct (D @ [brk h])" using f nin by simp
    show "\<exists>E. dirs h' d = Some E \<and> length E = cap \<and>
            (\<forall>k<length (D @ [brk h]). E ! k = Some ((D @ [brk h]) ! k))"
      using h' f n by (auto simp: nth_append nth_list_update less_Suc_eq)
    show "\<forall>k<length (D @ [brk h]). (D @ [brk h]) ! k < brk h' \<and>
            bufs h' ((D @ [brk h]) ! k) = Some ((Bs @ [replicate bc None]) ! k) \<and>
            length ((Bs @ [replicate bc None]) ! k) = bc"
    proof (intro allI impI)
      fix k assume "k < length (D @ [brk h])"
      then consider "k < length D" | "k = length D" by fastforce
      then show "(D @ [brk h]) ! k < brk h' \<and>
            bufs h' ((D @ [brk h]) ! k) = Some ((Bs @ [replicate bc None]) ! k) \<and>
            length ((Bs @ [replicate bc None]) ! k) = bc"
      proof cases
        case 1
        then have "D ! k \<noteq> brk h" using f(7) [OF 1] by simp
        then show ?thesis using 1 f h' by (simp add: nth_append less_SucI)
      next
        case 2
        then show ?thesis using f h' by (simp add: nth_append)
      qed
    qed
  qed
qed

lemma upsize_dir_path:
  assumes l: "laid h (dir v) (dcap v) (buffer_capacity v) D Bs"
    and big: "big_buffer v" and lbc: "0 < log_buffer_capacity v" and ds: "0 < dir_size v"
  defines "v' \<equiv> v\<lparr>dir := brk h, big_buffer := False\<rparr>"
  shows "\<exists>h'. upsize (h, v) = Ok () (h', v') \<and>
           laid h' (dir v') (dcap v') (buffer_capacity v') D Bs \<and>
           brk h' = Suc (brk h) \<and> bufs h' = bufs h \<and>
           (\<forall>a. a \<noteq> dir v \<and> a \<noteq> brk h \<longrightarrow> dirs h' a = dirs h a)"
proof -
  from upsize_dir_spec [OF l big lbc] obtain h' where
    h': "upsize_dir (h, v) = Ok () (h', v')"
      "laid h' (dir v') (dcap v') (buffer_capacity v') D Bs"
      "brk h' = Suc (brk h)" "bufs h' = bufs h"
      "\<forall>a. a \<noteq> dir v \<and> a \<noteq> brk h \<longrightarrow> dirs h' a = dirs h a"
    unfolding v'_def by blast
  have "size_of v' = size_of v" "0 < dir_size v'" using ds by (simp_all add: v'_def size_of_def)
  then have "upsize (h, v) = Ok () (h', v')"
    using h'(1) big ds by (simp add: upsize_def size_vec_exec assert_def)
  with h' show ?thesis by blast
qed

lemma upsize_buffers_path:
  assumes l: "laid h (dir v) (dcap v) (buffer_capacity v) D Bs"
    and n: "length D = dcap v" and nb: "\<not> big_buffer v" and ne: "\<not> extra_buffer v"
    and lbc: "0 < log_buffer_capacity v" and full: "last_buffer_size v = buffer_capacity v"
    and ds: "dir_size v = dcap v"
  defines "m \<equiv> dcap v div 2"
  defines "v' \<equiv> v\<lparr>dir_size := dcap v div 2, last_buffer_size := last_buffer_size v * 2,
                    log_buffer_capacity := log_buffer_capacity v + 1, big_buffer := True\<rparr>"
  defines "D' \<equiv> [brk h..<brk h + m]"
  defines "Bs' \<equiv> map (\<lambda>j. Bs ! (2 * j) @ Bs ! (2 * j + 1)) [0..<m]"
  shows "\<exists>h'. upsize (h, v) = Ok () (h', v') \<and>
           laid h' (dir v') (dcap v') (buffer_capacity v') D' Bs' \<and>
           brk h' = brk h + m \<and>
           (\<forall>a. a \<noteq> dir v \<longrightarrow> dirs h' a = dirs h a) \<and>
           (\<forall>a. a < brk h \<and> a \<notin> set D \<longrightarrow> bufs h' a = bufs h a)"
proof -
  from upsize_buffers_spec [OF l n nb ne lbc full] obtain h' where
    h': "upsize_buffers (h, v) = Ok () (h', v')"
      "laid h' (dir v') (dcap v') (buffer_capacity v') D' Bs'"
      "brk h' = brk h + m"
      "\<forall>a. a \<noteq> dir v \<longrightarrow> dirs h' a = dirs h a"
      "\<forall>a. a < brk h \<and> a \<notin> set D \<longrightarrow> bufs h' a = bufs h a"
    unfolding v'_def m_def D'_def Bs'_def by blast
  obtain c where c: "dcap v = 2 * c" using caps(4) [OF lbc nb] by (auto elim: evenE)
  have cpos: "0 < c" using caps(2) [OF lbc] c by simp
  have bc': "buffer_capacity v' = 2 * buffer_capacity v" by (simp add: v'_def buffer_capacity_pow)
  have "size_of v = 2 * c * buffer_capacity v"
    using ds c cpos full by (cases c) (simp_all add: size_of_def)
  moreover have "size_of v' = 2 * c * buffer_capacity v"
    using c cpos full bc' by (cases c) (simp_all add: size_of_def v'_def)
  moreover have "0 < dir_size v'" "0 < dir_size v" using c cpos ds by (simp_all add: v'_def)
  ultimately have "upsize (h, v) = Ok () (h', v')"
    using h'(1) nb by (simp add: upsize_def size_vec_exec assert_def)
  with h' show ?thesis by blast
qed


lemma push_back_promote:
  assumes r: "rep (h, v) D Bs" and p: "last_buffer_size v + 1 = buffer_capacity v"
    and x: "extra_buffer v"
  shows "\<exists>h' v' D' Bs'. push_back x (h, v) = Ok () (h', v') \<and> rep (h', v') D' Bs' \<and>
           elems v' Bs' = elems v Bs @ [Some x] \<and>
           frame h (insert (dir v) (set D)) h' (insert (dir v') (set D'))"
proof -
  let ?m = "dir_size v - 1" and ?j = "last_buffer_size v"
  let ?B = "(Bs ! ?m)[?j := Some x]"
  let ?h = "h\<lparr>bufs := (bufs h)(D ! ?m \<mapsto> ?B)\<rparr>"
  let ?v = "v\<lparr>dir_size := dir_size v + 1, extra_buffer := False, last_buffer_size := 0\<rparr>"
  let ?Bs = "Bs[?m := ?B]"
  from r have l: "laid h (dir v) (dcap v) (buffer_capacity v) D Bs"
    and sh: "shape v" and c: "length D = count v"
    by (simp_all add: rep_def)
  note la = rep_last [OF r]
  from la(5) obtain E where E: "dirs h (dir v) = Some E" "length E = dcap v"
    "\<And>k. k < length D \<Longrightarrow> E ! k = Some (D ! k)" by blast
  have v: "valid v" using sh by (simp add: shape_def)
  have f: "0 < dir_size v" "?j < buffer_capacity v" "dir_size v \<le> dcap v"
    using sh by (simp_all add: shape_iff)
  have sh': "shape ?v" and sz: "size_of ?v = size_of v + 1"
    by (rule shape_push_promote [OF sh p]; simp add: x)+
  have v': "valid ?v" using sh' by (simp add: shape_def)
  have ex: "push_back x (h, v) = Ok () (?h, ?v)"
    using v v' f la E(1,2) E(3) [OF la(1)] p sz x
    by (simp add: push_back_def size_vec_exec assert_valid_exec prim_defs)
  have l': "laid ?h (dir v) (dcap v) (buffer_capacity v) D ?Bs"
    by (rule laid_put [OF l la(1)]) (use la in simp_all)
  have r': "rep (?h, ?v) D ?Bs" using l' sh' c x by (simp add: rep_def count_def)
  have "concat (take (dir_size v) ?Bs) = elems v Bs @ [Some x]"
    by (rule elems_store(2)) (use f la p in simp_all)
  then have e: "elems ?v ?Bs = elems v Bs @ [Some x]"
    by (simp add: elems_lbs0)
  have fr: "frame h (insert (dir v) (set D)) ?h (insert (dir ?v) (set D))"
    using la(1) by (auto simp: frame_def)
  from ex r' e fr show ?thesis by blast
qed

lemma push_back_grow:
  assumes r: "rep (h, v) D Bs" and p: "last_buffer_size v + 1 = buffer_capacity v"
    and x: "\<not> extra_buffer v" and nf: "dir_size v \<noteq> dcap v"
  shows "\<exists>h' v' D' Bs'. push_back x (h, v) = Ok () (h', v') \<and> rep (h', v') D' Bs' \<and>
           elems v' Bs' = elems v Bs @ [Some x] \<and>
           frame h (insert (dir v) (set D)) h' (insert (dir v') (set D'))"
proof -
  let ?m = "dir_size v - 1" and ?j = "last_buffer_size v" and ?bc = "buffer_capacity v"
  let ?B = "(Bs ! ?m)[?j := Some x]"
  let ?h1 = "h\<lparr>bufs := (bufs h)(D ! ?m \<mapsto> ?B)\<rparr>"
  let ?v = "v\<lparr>dir_size := dir_size v + 1, extra_buffer := False, last_buffer_size := 0\<rparr>"
  let ?Bs1 = "Bs[?m := ?B]"
  from r have l: "laid h (dir v) (dcap v) ?bc D Bs"
    and sh: "shape v" and c: "length D = count v"
    by (simp_all add: rep_def)
  note la = rep_last [OF r]
  from la(5) obtain E where E: "dirs h (dir v) = Some E" "length E = dcap v"
    "\<And>k. k < length D \<Longrightarrow> E ! k = Some (D ! k)" by blast
  let ?h = "h\<lparr>bufs := (bufs h)(D ! ?m \<mapsto> ?B, brk h \<mapsto> replicate ?bc None),
              dirs := (dirs h)(dir v \<mapsto> E[dir_size v := Some (brk h)]),
              brk := Suc (brk h)\<rparr>"
  have v: "valid v" using sh by (simp add: shape_def)
  have f: "0 < dir_size v" "?j < ?bc" "dir_size v < dcap v" "0 < log_buffer_capacity v"
    using sh nf by (simp_all add: shape_iff)
  have n: "length D = dir_size v" using c x by (simp add: count_def)
  have sh': "shape ?v" and sz: "size_of ?v = size_of v + 1"
    by (rule shape_push_promote [OF sh p]; simp add: nf)+
  have v': "valid ?v" using sh' by (simp add: shape_def)
  have ex: "push_back x (h, v) = Ok () (?h, ?v)"
    using v v' f la E(1,2) E(3) [OF la(1)] p sz x nf
    by (simp add: push_back_def size_vec_exec assert_valid_exec dir_capacity_exec prim_defs)
  have l1: "laid ?h1 (dir v) (dcap v) ?bc D ?Bs1"
    by (rule laid_put [OF l la(1)]) (use la in simp_all)
  have l': "laid ?h (dir v) (dcap v) ?bc (D @ [brk h]) (?Bs1 @ [replicate ?bc None])"
    using laid_snoc [OF l1, where E = E and h' = ?h] n f E by simp
  have r': "rep (?h, ?v) (D @ [brk h]) (?Bs1 @ [replicate ?bc None])"
    using l' sh' n by (simp add: rep_def count_def)
  have "concat (take (dir_size v) ?Bs1) = elems v Bs @ [Some x]"
    by (rule elems_store(2)) (use f la p in simp_all)
  then have e: "elems ?v (?Bs1 @ [replicate ?bc None]) = elems v Bs @ [Some x]"
    using la(2) n by (simp add: elems_lbs0)
  have fr: "frame h (insert (dir v) (set D)) ?h (insert (dir ?v) (set (D @ [brk h])))"
    using la(1) by (auto simp: frame_def)
  from ex r' e fr show ?thesis by blast
qed


lemma push_back_updir:
  assumes r: "rep (h, v) D Bs" and p: "last_buffer_size v + 1 = buffer_capacity v"
    and x: "\<not> extra_buffer v" and nf: "dir_size v = dcap v" and big: "big_buffer v"
  shows "\<exists>h' v' D' Bs'. push_back x (h, v) = Ok () (h', v') \<and> rep (h', v') D' Bs' \<and>
           elems v' Bs' = elems v Bs @ [Some x] \<and>
           frame h (insert (dir v) (set D)) h' (insert (dir v') (set D'))"
proof -
  let ?m = "dir_size v - 1" and ?j = "last_buffer_size v" and ?bc = "buffer_capacity v"
  let ?B = "(Bs ! ?m)[?j := Some x]"
  let ?h1 = "h\<lparr>bufs := (bufs h)(D ! ?m \<mapsto> ?B)\<rparr>"
  let ?v1 = "v\<lparr>last_buffer_size := ?j + 1\<rparr>"
  let ?v2 = "?v1\<lparr>dir := brk ?h1, big_buffer := False\<rparr>"
  let ?v = "v\<lparr>dir := brk h, big_buffer := False, dir_size := dir_size v + 1,
              extra_buffer := False, last_buffer_size := 0\<rparr>"
  let ?Bs1 = "Bs[?m := ?B]"
  from r have l: "laid h (dir v) (dcap v) ?bc D Bs"
    and sh: "shape v" and c: "length D = count v"
    by (simp_all add: rep_def)
  note la = rep_last [OF r]
  from la(5) obtain E where E: "dirs h (dir v) = Some E" "length E = dcap v"
    "\<And>k. k < length D \<Longrightarrow> E ! k = Some (D ! k)" by blast
  have v: "valid v" using sh by (simp add: shape_def)
  have f: "0 < dir_size v" "?j < ?bc" "0 < log_buffer_capacity v" "0 < dcap v" "0 < dir v"
    using sh nf by (simp_all add: shape_iff)
  have n: "length D = dir_size v" using c x by (simp add: count_def)
  have l1: "laid ?h1 (dir ?v1) (dcap ?v1) (buffer_capacity ?v1) D ?Bs1"
    using laid_put [OF l la(1), where h' = ?h1 and B = ?B] la by simp
  from upsize_dir_path [OF l1] big f
  obtain h2 where h2: "upsize (?h1, ?v1) = Ok () (h2, ?v2)"
      "laid h2 (dir ?v2) (dcap ?v2) (buffer_capacity ?v2) D ?Bs1"
      "brk h2 = Suc (brk h)" "bufs h2 = bufs ?h1"
      "\<forall>a. a \<noteq> dir v \<and> a \<noteq> brk h \<longrightarrow> dirs h2 a = dirs h a"
    by auto
  have dc2: "dcap ?v2 = 2 * dcap v"
    using f big by (cases "log_buffer_capacity v") (simp_all add: dcap_def)
  from h2(2) obtain E2 where E2: "dirs h2 (brk h) = Some E2" "length E2 = 2 * dcap v"
    unfolding laid_def dc2 by auto
  let ?h = "h2\<lparr>bufs := (bufs h2)(brk h2 \<mapsto> replicate ?bc None),
               dirs := (dirs h2)(brk h \<mapsto> E2[dir_size v := Some (brk h2)]),
               brk := Suc (brk h2)\<rparr>"
  have b0: "0 < brk h" using f la(6) by simp
  have sh': "shape ?v"
    by (rule shape_push_updir(1) [OF sh p x nf big]) (simp_all add: b0)
  have sz: "size_of ?v = size_of v + 1"
    by (rule shape_push_updir(2) [OF sh p x nf big]) (simp_all add: b0)
  have v': "valid ?v" using sh' by (simp add: shape_def)
  have ex: "push_back x (h, v) = Ok () (?h, ?v)"
    using v v' f la E(1,2) E(3) [OF la(1)] p sz x nf big h2(1,3) E2 dc2
    by (simp add: push_back_def size_vec_exec assert_valid_exec dir_capacity_exec prim_defs)
  have l': "laid ?h (dir ?v2) (dcap ?v2) (buffer_capacity ?v2) (D @ [brk h2]) (?Bs1 @ [replicate ?bc None])"
    using laid_snoc [OF h2(2), where E = E2 and h' = ?h] n f E2 nf dc2 by simp
  have r': "rep (?h, ?v) (D @ [brk h2]) (?Bs1 @ [replicate ?bc None])"
    using l' sh' n dc2 by (simp add: rep_def count_def dcap_def)
  have "concat (take (dir_size v) ?Bs1) = elems v Bs @ [Some x]"
    by (rule elems_store(2)) (use f la p in simp_all)
  then have e: "elems ?v (?Bs1 @ [replicate ?bc None]) = elems v Bs @ [Some x]"
    using la(2) n by (simp add: elems_lbs0)
  have fr: "frame h (insert (dir v) (set D)) ?h (insert (dir ?v) (set (D @ [brk h2])))"
    using la(1) h2(3,4,5) by (auto simp: frame_def)
  from ex r' e fr show ?thesis by blast
qed

lemma push_back_upbuf:
  assumes r: "rep (h, v) D Bs" and p: "last_buffer_size v + 1 = buffer_capacity v"
    and x: "\<not> extra_buffer v" and nf: "dir_size v = dcap v" and nb: "\<not> big_buffer v"
  shows "\<exists>h' v' D' Bs'. push_back x (h, v) = Ok () (h', v') \<and> rep (h', v') D' Bs' \<and>
           elems v' Bs' = elems v Bs @ [Some x] \<and>
           frame h (insert (dir v) (set D)) h' (insert (dir v') (set D'))"
proof -
  let ?m = "dir_size v - 1" and ?j = "last_buffer_size v" and ?bc = "buffer_capacity v"
  let ?c = "dcap v div 2"
  let ?B = "(Bs ! ?m)[?j := Some x]"
  let ?h1 = "h\<lparr>bufs := (bufs h)(D ! ?m \<mapsto> ?B)\<rparr>"
  let ?v1 = "v\<lparr>last_buffer_size := ?j + 1\<rparr>"
  let ?v2 = "?v1\<lparr>dir_size := dcap ?v1 div 2, last_buffer_size := last_buffer_size ?v1 * 2,
                    log_buffer_capacity := log_buffer_capacity ?v1 + 1, big_buffer := True\<rparr>"
  let ?v = "v\<lparr>log_buffer_capacity := log_buffer_capacity v + 1, big_buffer := True,
              dir_size := ?c + 1, extra_buffer := False, last_buffer_size := 0\<rparr>"
  let ?Bs1 = "Bs[?m := ?B]"
  let ?D2 = "[brk h..<brk h + ?c]"
  let ?Bs2 = "map (\<lambda>j. ?Bs1 ! (2 * j) @ ?Bs1 ! (2 * j + 1)) [0..<?c]"
  from r have l: "laid h (dir v) (dcap v) ?bc D Bs"
    and sh: "shape v" and c: "length D = count v"
    by (simp_all add: rep_def)
  note la = rep_last [OF r]
  from la(5) obtain E where E: "dirs h (dir v) = Some E" "length E = dcap v"
    "\<And>k. k < length D \<Longrightarrow> E ! k = Some (D ! k)" by blast
  have v: "valid v" using sh by (simp add: shape_def)
  have f: "0 < dir_size v" "?j < ?bc" "0 < log_buffer_capacity v" "0 < dcap v" "0 < dir v"
    using sh nf by (simp_all add: shape_iff)
  have n: "length D = dir_size v" using c x by (simp add: count_def)
  obtain q where q: "dcap v = 2 * q" using caps(4) [OF f(3) nb] by (auto elim: evenE)
  have qpos: "0 < q" and cq: "?c = q" using f(4) q by simp_all
  have l1: "laid ?h1 (dir ?v1) (dcap ?v1) (buffer_capacity ?v1) D ?Bs1"
    using laid_put [OF l la(1), where h' = ?h1 and B = ?B] la by simp
  have "\<exists>h2. upsize (?h1, ?v1) = Ok () (h2, ?v2) \<and>
           laid h2 (dir ?v2) (dcap ?v2) (buffer_capacity ?v2) [brk ?h1..<brk ?h1 + dcap ?v1 div 2]
             (map (\<lambda>j. ?Bs1 ! (2 * j) @ ?Bs1 ! (2 * j + 1)) [0..<dcap ?v1 div 2]) \<and>
           brk h2 = brk ?h1 + dcap ?v1 div 2 \<and>
           (\<forall>a. a \<noteq> dir ?v1 \<longrightarrow> dirs h2 a = dirs ?h1 a) \<and>
           (\<forall>a. a < brk ?h1 \<and> a \<notin> set D \<longrightarrow> bufs h2 a = bufs ?h1 a)"
    by (rule upsize_buffers_path [OF l1]) (use n nf nb x f p in simp_all)
  then obtain h2 where h2: "upsize (?h1, ?v1) = Ok () (h2, ?v2)"
      "laid h2 (dir ?v2) (dcap ?v2) (buffer_capacity ?v2) ?D2 ?Bs2"
      "brk h2 = brk h + ?c"
      "\<forall>a. a \<noteq> dir v \<longrightarrow> dirs h2 a = dirs h a"
      "\<forall>a. a < brk h \<and> a \<notin> set D \<longrightarrow> bufs h2 a = bufs ?h1 a"
    by auto
  have dc2: "dcap ?v2 = dcap v" and bc2: "buffer_capacity ?v2 = 2 * ?bc"
    using nb by (simp_all add: dcap_def buffer_capacity_pow)
  from h2(2) obtain E2 where E2: "dirs h2 (dir v) = Some E2" "length E2 = dcap v"
    unfolding laid_def dc2 by auto
  let ?h = "h2\<lparr>bufs := (bufs h2)(brk h2 \<mapsto> replicate (2 * ?bc) None),
               dirs := (dirs h2)(dir v \<mapsto> E2[?c := Some (brk h2)]),
               brk := Suc (brk h2)\<rparr>"
  have sh': "shape ?v"
    by (rule shape_push_upbuf(1) [OF sh p x nf nb]) simp_all
  have sz: "size_of ?v = size_of v + 1"
    by (rule shape_push_upbuf(2) [OF sh p x nf nb]) simp_all
  have v': "valid ?v" using sh' by (simp add: shape_def)
  have ex: "push_back x (h, v) = Ok () (?h, ?v)"
    using v v' f la E(1,2) E(3) [OF la(1)] p sz x nf nb h2(1,3) E2 dc2 bc2 q qpos
    by (simp add: push_back_def size_vec_exec assert_valid_exec dir_capacity_exec prim_defs)
  have l': "laid ?h (dir ?v2) (dcap ?v2) (buffer_capacity ?v2) (?D2 @ [brk h2]) (?Bs2 @ [replicate (2 * ?bc) None])"
    using laid_snoc [OF h2(2), where E = E2 and h' = ?h] E2 dc2 bc2 q qpos by simp
  have r': "rep (?h, ?v) (?D2 @ [brk h2]) (?Bs2 @ [replicate (2 * ?bc) None])"
    using l' sh' dc2 bc2 by (simp add: rep_def count_def dcap_def buffer_capacity_pow)
  have "concat (take (dir_size v) ?Bs1) = elems v Bs @ [Some x]"
    by (rule elems_store(2)) (use f la p in simp_all)
  moreover have "concat ?Bs2 = concat (take (2 * ?c) ?Bs1)"
    by (rule concat_pairs) (use la(2) n nf q in simp)
  ultimately have e: "elems ?v (?Bs2 @ [replicate (2 * ?bc) None]) = elems v Bs @ [Some x]"
    using nf q by (simp add: elems_lbs0)
  have fr: "frame h (insert (dir v) (set D)) ?h (insert (dir ?v) (set (?D2 @ [brk h2])))"
    using la(1) h2(3,4,5) by (auto simp: frame_def)
  from ex r' e fr show ?thesis by blast
qed

lemma push_back_rep:
  assumes r: "rep (h, v) D Bs"
  shows "\<exists>h' v' D' Bs'. push_back x (h, v) = Ok () (h', v') \<and> rep (h', v') D' Bs' \<and>
           elems v' Bs' = elems v Bs @ [Some x] \<and>
           frame h (insert (dir v) (set D)) h' (insert (dir v') (set D'))"
proof (cases "last_buffer_size v + 1 = buffer_capacity v")
  case False
  then show ?thesis by (rule push_back_plain [OF r])
next
  case p: True
  show ?thesis
  proof (cases "extra_buffer v")
    case True
    then show ?thesis by (rule push_back_promote [OF r p])
  next
    case x: False
    show ?thesis
    proof (cases "dir_size v = dcap v")
      case False
      then show ?thesis by (rule push_back_grow [OF r p x])
    next
      case nf: True
      show ?thesis
      proof (cases "big_buffer v")
        case True
        then show ?thesis by (rule push_back_updir [OF r p x nf])
      next
        case False
        then show ?thesis by (rule push_back_upbuf [OF r p x nf])
      qed
    qed
  qed
qed

lemma dcap_dvd4: "4 \<le> dcap v \<Longrightarrow> 4 dvd dcap v"
proof -
  assume a: "4 \<le> dcap v"
  let ?k = "log_buffer_capacity v - (if big_buffer v then 1 else 0)"
  have d: "dcap v = 2 ^ ?k" by (simp add: dcap_def)
  have "2 \<le> ?k"
  proof (rule ccontr)
    assume "\<not> 2 \<le> ?k"
    then have "?k = 0 \<or> ?k = 1" by linarith
    then show False using a unfolding d by auto
  qed
  then obtain j where "?k = 2 + j" using le_Suc_ex by blast
  then show ?thesis unfolding d by (simp add: power_add)
qed

lemma dcap_trigger:
  assumes "dir_size v * 4 \<le> dcap v" "dcap v < 4 * dir_size v + 4" "0 < dir_size v"
  shows "dcap v = dir_size v * 4"
proof -
  have "4 \<le> dcap v" using assms by simp
  from dcap_dvd4 [OF this] obtain k where "dcap v = 4 * k" by (auto elim: dvdE)
  with assms show ?thesis by simp
qed

lemma shape_pop_borrow:
  assumes "shape v" "last_buffer_size v = 0" "0 < size_of v"
    and v': "dir v' = dir v" "dir_size v' = dir_size v - 1" "last_buffer_size v' = buffer_capacity v - 1"
      "log_buffer_capacity v' = log_buffer_capacity v" "big_buffer v' = big_buffer v"
      "extra_buffer v'"
  shows "shape v'" "size_of v' + 1 = size_of v" "\<not> count v' * 4 \<le> dcap v'"
proof -
  have c: "dcap v' = dcap v" "buffer_capacity v' = buffer_capacity v"
    by (simp_all add: dcap_def buffer_capacity_def v')
  have lbc: "0 < log_buffer_capacity v" using assms(1) by (simp add: shape_iff)
  have ds: "2 \<le> dir_size v" using assms(2,3) by (cases "dir_size v \<le> 1") (auto simp: size_of_def)
  have bc: "2 \<le> buffer_capacity v" using lbc by (cases "log_buffer_capacity v") (simp_all add: buffer_capacity_pow)
  show "shape v'" using assms(1,2) ds bc by (auto simp: shape_iff c v')
  show "\<not> count v' * 4 \<le> dcap v'" using assms(1,2) ds by (auto simp: shape_iff c v' count_def)
  obtain k where k: "dir_size v = Suc (Suc k)" using ds by (metis Suc_le_D numeral_2_eq_2 Suc_le_mono)
  show "size_of v' + 1 = size_of v" using bc assms(2) by (simp add: size_of_def c v' k)
qed

lemma shape_pop_plain:
  assumes "shape v" "0 < last_buffer_size v" "\<not> (last_buffer_size v = 1 \<and> extra_buffer v)"
    and dense: "extra_buffer v \<or> dcap v < 4 * dir_size v"
    and v': "dir v' = dir v" "dir_size v' = dir_size v" "last_buffer_size v' = last_buffer_size v - 1"
      "log_buffer_capacity v' = log_buffer_capacity v" "big_buffer v' = big_buffer v"
      "extra_buffer v' = extra_buffer v"
  shows "shape v'" "size_of v' + 1 = size_of v" "\<not> count v' * 4 \<le> dcap v'"
proof -
  have c: "dcap v' = dcap v" "buffer_capacity v' = buffer_capacity v"
    by (simp_all add: dcap_def buffer_capacity_def v')
  show "shape v'" using assms(1-4) by (auto simp: shape_iff c v')
  show "\<not> count v' * 4 \<le> dcap v'" using assms(1-4) by (auto simp: shape_iff c v' count_def)
  show "size_of v' + 1 = size_of v" using assms(2) by (simp add: size_of_def c v')
qed

lemma shape_pop_sparse:
  assumes "shape v" "0 < last_buffer_size v" "\<not> extra_buffer v" "\<not> dcap v < 4 * dir_size v"
  shows "dir_size v = 1" "\<not> big_buffer v" "dcap v = 4" "log_buffer_capacity v = 2"
  using assms by (auto simp: shape_iff)

lemma shape_pop_sparse_done:
  assumes "shape v" "0 < last_buffer_size v" "\<not> extra_buffer v" "\<not> dcap v < 4 * dir_size v"
    and v': "0 < dir v'" "dir_size v' = dir_size v" "last_buffer_size v' = last_buffer_size v - 1"
      "log_buffer_capacity v' = log_buffer_capacity v" "big_buffer v'"
      "\<not> extra_buffer v'"
  shows "shape v'" "size_of v' + 1 = size_of v"
proof -
  note sp = shape_pop_sparse [OF assms(1-4)]
  have c: "dcap v' = 2" "buffer_capacity v' = buffer_capacity v"
    by (simp_all add: dcap_def buffer_capacity_def v' sp)
  show "shape v'" using assms(1-4) sp by (auto simp: shape_iff c v')
  show "size_of v' + 1 = size_of v" using assms(2) by (simp add: size_of_def c v')
qed

lemma shape_pop_release:
  assumes "shape v" "last_buffer_size v = 1" "extra_buffer v"
    and v': "dir v' = dir v" "dir_size v' = dir_size v" "last_buffer_size v' = 0"
      "log_buffer_capacity v' = log_buffer_capacity v" "big_buffer v' = big_buffer v"
      "\<not> extra_buffer v'"
  shows "\<not> dir_size v * 4 \<le> dcap v \<Longrightarrow> shape v'" "size_of v' + 1 = size_of v"
    "dir_size v * 4 \<le> dcap v \<Longrightarrow> dcap v = dir_size v * 4"
proof -
  have c: "dcap v' = dcap v" "buffer_capacity v' = buffer_capacity v"
    by (simp_all add: dcap_def buffer_capacity_def v')
  show "shape v'" if "\<not> dir_size v * 4 \<le> dcap v"
    using assms(1-3) that by (auto simp: shape_iff c v')
  show "size_of v' + 1 = size_of v" using assms(2) by (simp add: size_of_def c v')
  show "dcap v = dir_size v * 4" if "dir_size v * 4 \<le> dcap v"
    using dcap_trigger [OF that] assms(1,3) by (simp add: shape_iff)
qed

lemma shape_pop_release_dir:
  assumes "shape v" "last_buffer_size v = 1" "extra_buffer v" "dcap v = dir_size v * 4"
    "\<not> big_buffer v"
    and v': "0 < dir v'" "dir_size v' = dir_size v" "last_buffer_size v' = 0"
      "log_buffer_capacity v' = log_buffer_capacity v" "big_buffer v'"
      "\<not> extra_buffer v'"
  shows "shape v'" "size_of v' + 1 = size_of v"
proof -
  have lbc: "0 < log_buffer_capacity v" using assms(1) by (simp add: shape_iff)
  have c: "dcap v' = dcap v div 2" "buffer_capacity v' = buffer_capacity v"
    using lbc assms(5) by (cases "log_buffer_capacity v"; simp add: dcap_def buffer_capacity_def v')+
  show "shape v'" using assms(1-4) by (auto simp: shape_iff c v')
  show "size_of v' + 1 = size_of v" using assms(2) by (simp add: size_of_def c v')
qed

lemma shape_pop_release_buf:
  assumes "shape v" "last_buffer_size v = 1" "extra_buffer v" "dcap v = dir_size v * 4"
    "big_buffer v"
    and v': "dir v' = dir v" "dir_size v' = 2 * dir_size v - 1" "last_buffer_size v' = 0"
      "log_buffer_capacity v' = log_buffer_capacity v - 1" "\<not> big_buffer v'"
      "\<not> extra_buffer v'"
  shows "shape v'" "size_of v' + 1 = size_of v"
proof -
  have ds: "0 < dir_size v" using assms(1) by (simp add: shape_iff)
  have dc: "dcap v = 2 ^ (log_buffer_capacity v - 1)" using assms(5) by (simp add: dcap_def)
  have "2 ^ 2 \<le> (2::nat) ^ (log_buffer_capacity v - 1)" using assms(4) ds unfolding dc [symmetric] by simp
  then have "2 \<le> log_buffer_capacity v - 1" by (simp only: power_increasing_iff)
  then have "log_buffer_capacity v = Suc (Suc (Suc (log_buffer_capacity v - 3)))" by simp
  then obtain q where q: "log_buffer_capacity v = Suc (Suc (Suc q))" ..
  have c: "dcap v' = dcap v" "2 * buffer_capacity v' = buffer_capacity v" "0 < buffer_capacity v'"
    using assms(5) by (simp_all add: dcap_def buffer_capacity_pow v' q)
  have "log_buffer_capacity v' = 2" if "dir_size v = 1"
  proof -
    have "(2::nat) ^ Suc (Suc q) = 2 ^ 2" using assms(4) that unfolding dc q by simp
    then have "Suc (Suc q) = 2" by (simp only: power_inject_exp)
    then show ?thesis by (simp add: v' q)
  qed
  then show "shape v'" using assms(1-4) ds c
    by (cases "dir_size v = 1") (auto simp: shape_iff v' q)
  obtain k where k: "dir_size v = Suc k" using ds by (cases "dir_size v") auto
  have "size_of v' = 2 * k * buffer_capacity v'" by (simp add: size_of_def v' k)
  also have "\<dots> = k * buffer_capacity v" using c(2) by (metis mult.assoc mult.commute)
  finally show "size_of v' + 1 = size_of v" using assms(2) by (simp add: size_of_def k)
qed

lemma downsize_dir_path:
  assumes l: "laid h (dir v) (dcap v) (buffer_capacity v) D Bs"
    and nb: "\<not> big_buffer v" and lbc: "0 < log_buffer_capacity v"
    and n: "length D = dir_size v" and room: "dir_size v \<le> dcap v div 2" and ds: "0 < dir_size v"
  defines "v' \<equiv> v\<lparr>dir := brk h, big_buffer := True\<rparr>"
  shows "\<exists>h'. downsize (h, v) = Ok () (h', v') \<and>
           laid h' (dir v') (dcap v') (buffer_capacity v') D Bs \<and>
           brk h' = Suc (brk h) \<and> bufs h' = bufs h \<and>
           (\<forall>a. a \<noteq> dir v \<and> a \<noteq> brk h \<longrightarrow> dirs h' a = dirs h a)"
proof -
  from downsize_dir_spec [OF l nb lbc n room] obtain h' where
    h': "downsize_dir (h, v) = Ok () (h', v')"
      "laid h' (dir v') (dcap v') (buffer_capacity v') D Bs"
      "brk h' = Suc (brk h)" "bufs h' = bufs h"
      "\<forall>a. a \<noteq> dir v \<and> a \<noteq> brk h \<longrightarrow> dirs h' a = dirs h a"
    unfolding v'_def by blast
  have "size_of v' = size_of v" "0 < dir_size v'" using ds by (simp_all add: v'_def size_of_def)
  then have "downsize (h, v) = Ok () (h', v')"
    using h'(1) nb ds by (simp add: downsize_def size_vec_exec assert_def)
  with h' show ?thesis by blast
qed

lemma downsize_buffers_path:
  assumes l: "laid h (dir v) (dcap v) (buffer_capacity v) D Bs"
    and n: "length D = dir_size v" and big: "big_buffer v" and ne: "\<not> extra_buffer v"
    and lbs: "last_buffer_size v = 0" and room: "dir_size v * 2 < dcap v" and pos: "0 < dir_size v"
    and lbc: "0 < log_buffer_capacity v"
  defines "n1 \<equiv> dir_size v - 1"
  defines "bc \<equiv> buffer_capacity v"
  defines "v' \<equiv> v\<lparr>dir_size := 2 * dir_size v - 1,
                    log_buffer_capacity := log_buffer_capacity v - 1, big_buffer := False\<rparr>"
  defines "D' \<equiv> map (new_at (brk h) n1) [0..<2 * n1] @ [brk h + 2 * n1]"
  defines "Bs' \<equiv> map (\<lambda>m. half bc (m mod 2) (Bs ! (m div 2))) [0..<2 * n1] @ [replicate (bc div 2) None]"
  shows "\<exists>h'. downsize (h, v) = Ok () (h', v') \<and>
           laid h' (dir v') (dcap v') (buffer_capacity v') D' Bs' \<and>
           brk h' = brk h + 2 * n1 + 1 \<and>
           (\<forall>a. a \<noteq> dir v \<longrightarrow> dirs h' a = dirs h a) \<and>
           (\<forall>a. a < brk h \<and> a \<notin> set D \<longrightarrow> bufs h' a = bufs h a)"
proof -
  from downsize_buffers_spec [OF l n big ne lbs room pos] obtain h' where
    h': "downsize_buffers (h, v) = Ok () (h', v')"
      "laid h' (dir v') (dcap v') (buffer_capacity v') D' Bs'"
      "brk h' = brk h + 2 * n1 + 1"
      "\<forall>a. a \<noteq> dir v \<longrightarrow> dirs h' a = dirs h a"
      "\<forall>a. a < brk h \<and> a \<notin> set D \<longrightarrow> bufs h' a = bufs h a"
    unfolding v'_def n1_def D'_def Bs'_def bc_def by blast
  obtain k where k: "dir_size v = Suc k" using pos by (cases "dir_size v") auto
  obtain q where q: "log_buffer_capacity v = Suc q" using lbc by (cases "log_buffer_capacity v") auto
  have "size_of v' = 2 * k * 2 ^ q" using lbs by (simp add: size_of_def v'_def k q buffer_capacity_pow)
  moreover have "size_of v = k * (2 * 2 ^ q)" using lbs by (simp add: size_of_def k q buffer_capacity_pow)
  ultimately have "size_of v' = size_of v" by simp
  moreover have "0 < dir_size v'" using k by (simp add: v'_def)
  ultimately have "downsize (h, v) = Ok () (h', v')"
    using h'(1) big pos by (simp add: downsize_def size_vec_exec assert_def)
  with h' show ?thesis by blast
qed

lemma laid_take:
  assumes l: "laid h d cap bc D Bs" and n: "n \<le> length D"
    and h': "\<And>a. a \<in> set (take n D) \<Longrightarrow> bufs h' a = bufs h a" "dirs h' d = dirs h d" "brk h' = brk h"
  shows "laid h' d cap bc (take n D) (take n Bs)"
proof -
  have "D ! k \<in> set (take n D)" if "k < n" for k
    using that n by (auto simp: in_set_conv_nth intro!: exI [of _ k])
  then show ?thesis
    using l n h' unfolding laid_def by auto
qed

lemma elems_pop_plain:
  assumes "0 < last_buffer_size v" "last_buffer_size v \<le> length (Bs ! (dir_size v - 1))"
    and v': "dir_size v' = dir_size v" "last_buffer_size v' = last_buffer_size v - 1"
  shows "elems v' Bs = butlast (elems v Bs)"
proof -
  have "take (last_buffer_size v) (Bs ! (dir_size v - 1)) \<noteq> []" using assms(1,2) by auto
  then show ?thesis using assms(2) by (simp add: elems_def v' butlast_append butlast_take)
qed

lemma elems_take:
  "dir_size v \<le> n \<Longrightarrow> 0 < dir_size v \<Longrightarrow> dir_size v \<le> length Bs \<Longrightarrow> elems v (take n Bs) = elems v Bs"
proof -
  assume a: "dir_size v \<le> n" "0 < dir_size v" "dir_size v \<le> length Bs"
  then have "min (dir_size v - 1) n = dir_size v - 1" "dir_size v - 1 < n" by simp_all
  then show ?thesis using a by (simp add: elems_def)
qed

lemma elems_pop_borrow:
  assumes "last_buffer_size v = 0" "2 \<le> dir_size v" "dir_size v \<le> length Bs"
    "length (Bs ! (dir_size v - 2)) = bc" "0 < bc"
    and v': "dir_size v' = dir_size v - 1" "last_buffer_size v' = bc - 1"
  shows "elems v' Bs = butlast (elems v Bs)"
proof -
  obtain k where k: "dir_size v = Suc (Suc k)" using assms(2) by (metis Suc_le_D numeral_2_eq_2 Suc_le_mono)
  have "take (Suc k) Bs = take k Bs @ [Bs ! k]" using assms(3) k by (simp add: take_Suc_conv_app_nth)
  moreover have "Bs ! k \<noteq> []" using assms(4,5) k by auto
  moreover have "butlast (Bs ! k) = take (bc - 1) (Bs ! k)"
    using assms(4) k by (simp add: butlast_conv_take)
  ultimately show ?thesis
    using assms(1) by (simp add: elems_def v' k butlast_append)
qed

lemma pop_back_borrow:
  assumes r: "rep (h, v) D Bs" and nz: "0 < size_of v" and p: "last_buffer_size v = 0"
  shows "\<exists>h' v' D' Bs'. pop_back (h, v) = Ok () (h', v') \<and> rep (h', v') D' Bs' \<and>
           elems v' Bs' = butlast (elems v Bs) \<and>
           frame h (insert (dir v) (set D)) h' (insert (dir v') (set D'))"
proof -
  let ?bc = "buffer_capacity v"
  let ?v = "v\<lparr>last_buffer_size := ?bc - 1, dir_size := dir_size v - 1, extra_buffer := True\<rparr>"
  from r have l: "laid h (dir v) (dcap v) ?bc D Bs"
    and sh: "shape v" and c: "length D = count v"
    by (simp_all add: rep_def)
  note la = rep_last [OF r]
  have v: "valid v" using sh by (simp add: shape_def)
  have f: "0 < dir_size v" "0 < log_buffer_capacity v" "\<not> extra_buffer v" "0 < ?bc"
    using sh p by (auto simp: shape_iff)
  have ds: "2 \<le> dir_size v" using p nz by (cases "dir_size v \<le> 1") (auto simp: size_of_def)
  have n: "length D = dir_size v" using c f by (simp add: count_def)
  have sh': "shape ?v"
    by (rule shape_pop_borrow(1) [OF sh p nz]) simp_all
  have sz: "size_of ?v + 1 = size_of v"
    by (rule shape_pop_borrow(2) [OF sh p nz]) simp_all
  have nt: "\<not> count ?v * 4 \<le> dcap ?v"
    by (rule shape_pop_borrow(3) [OF sh p nz]) simp_all
  have v': "valid ?v" using sh' by (simp add: shape_def)
  have ds1: "0 < dir_size v - 1" and ds4: "(dir_size v - Suc 0) * 4 + 4 = dir_size v * 4"
    using ds by simp_all
  have ex: "pop_back (h, v) = Ok () (h, ?v)"
    using v v' f nz p sz nt ds1
    by (simp add: pop_back_def size_vec_exec assert_valid_exec dir_capacity_exec prim_defs count_def ds4)
  have r': "rep (h, ?v) D Bs" using l sh' n ds by (simp add: rep_def count_def)
  have "length (Bs ! (dir_size v - 2)) = ?bc"
    using l ds n unfolding laid_def by auto
  then have e: "elems ?v Bs = butlast (elems v Bs)"
    by (intro elems_pop_borrow [where bc = ?bc]) (use p ds la n f in simp_all)
  have fr: "frame h (insert (dir v) (set D)) h (insert (dir ?v) (set D))"
    by (auto simp: frame_def)
  from ex r' e fr show ?thesis by blast
qed

lemma pop_back_plain:
  assumes r: "rep (h, v) D Bs" and p: "0 < last_buffer_size v"
    and q: "\<not> (last_buffer_size v = 1 \<and> extra_buffer v)"
    and dense: "extra_buffer v \<or> dcap v < 4 * dir_size v"
  shows "\<exists>h' v' D' Bs'. pop_back (h, v) = Ok () (h', v') \<and> rep (h', v') D' Bs' \<and>
           elems v' Bs' = butlast (elems v Bs) \<and>
           frame h (insert (dir v) (set D)) h' (insert (dir v') (set D'))"
proof -
  let ?bc = "buffer_capacity v"
  let ?v = "v\<lparr>last_buffer_size := last_buffer_size v - 1\<rparr>"
  from r have l: "laid h (dir v) (dcap v) ?bc D Bs"
    and sh: "shape v" and c: "length D = count v"
    by (simp_all add: rep_def)
  note la = rep_last [OF r]
  have v: "valid v" using sh by (simp add: shape_def)
  have f: "0 < dir_size v" "0 < log_buffer_capacity v" "last_buffer_size v < ?bc"
    using sh p by (auto simp: shape_iff)
  have nz: "0 < size_of v" using p by (simp add: size_of_def)
  have sh': "shape ?v"
    by (rule shape_pop_plain(1) [OF sh p q dense]) simp_all
  have sz: "size_of ?v + 1 = size_of v"
    by (rule shape_pop_plain(2) [OF sh p q dense]) simp_all
  have nt: "\<not> count ?v * 4 \<le> dcap ?v"
    by (rule shape_pop_plain(3) [OF sh p q dense]) simp_all
  have v': "valid ?v" using sh' by (simp add: shape_def)
  have ex: "pop_back (h, v) = Ok () (h, ?v)"
    using v v' f nz p q sz nt
    by (auto simp: pop_back_def size_vec_exec assert_valid_exec dir_capacity_exec prim_defs count_def)
  have r': "rep (h, ?v) D Bs" using l sh' c by (simp add: rep_def count_def)
  have e: "elems ?v Bs = butlast (elems v Bs)"
    by (rule elems_pop_plain) (use p f la in simp_all)
  have fr: "frame h (insert (dir v) (set D)) h (insert (dir ?v) (set D))"
    by (auto simp: frame_def)
  from ex r' e fr show ?thesis by blast
qed


lemma pop_back_sparse:
  assumes r: "rep (h, v) D Bs" and p: "0 < last_buffer_size v"
    and x: "\<not> extra_buffer v" and sparse: "\<not> dcap v < 4 * dir_size v"
  shows "\<exists>h' v' D' Bs'. pop_back (h, v) = Ok () (h', v') \<and> rep (h', v') D' Bs' \<and>
           elems v' Bs' = butlast (elems v Bs) \<and>
           frame h (insert (dir v) (set D)) h' (insert (dir v') (set D'))"
proof -
  let ?bc = "buffer_capacity v"
  let ?v1 = "v\<lparr>last_buffer_size := last_buffer_size v - 1\<rparr>"
  let ?v = "?v1\<lparr>dir := brk h, big_buffer := True\<rparr>"
  from r have l: "laid h (dir v) (dcap v) ?bc D Bs"
    and sh: "shape v" and c: "length D = count v"
    by (simp_all add: rep_def)
  note la = rep_last [OF r]
  note sp = shape_pop_sparse [OF sh p x sparse]
  have v: "valid v" using sh by (simp add: shape_def)
  have f: "0 < dir_size v" "0 < log_buffer_capacity v" "last_buffer_size v < ?bc" "0 < dir v"
    using sh p by (auto simp: shape_iff)
  have nz: "0 < size_of v" using p by (simp add: size_of_def)
  have n: "length D = dir_size v" using c x by (simp add: count_def)
  have b0: "0 < brk h" using f la(6) by simp
  have l1: "laid h (dir ?v1) (dcap ?v1) (buffer_capacity ?v1) D Bs" using l by simp
  have "\<exists>h'. downsize (h, ?v1) = Ok () (h', ?v1\<lparr>dir := brk h, big_buffer := True\<rparr>) \<and>
           laid h' (dir ?v) (dcap ?v) (buffer_capacity ?v) D Bs \<and>
           brk h' = Suc (brk h) \<and> bufs h' = bufs h \<and>
           (\<forall>a. a \<noteq> dir ?v1 \<and> a \<noteq> brk h \<longrightarrow> dirs h' a = dirs h a)"
    by (rule downsize_dir_path [OF l1]) (use sp f n in simp_all)
  then obtain h' where h': "downsize (h, ?v1) = Ok () (h', ?v)"
      "laid h' (dir ?v) (dcap ?v) (buffer_capacity ?v) D Bs"
      "brk h' = Suc (brk h)" "bufs h' = bufs h"
      "\<forall>a. a \<noteq> dir v \<and> a \<noteq> brk h \<longrightarrow> dirs h' a = dirs h a"
    by auto
  have sh': "shape ?v"
    by (rule shape_pop_sparse_done(1) [OF sh p x sparse]) (simp_all add: b0 x)
  have sz: "size_of ?v + 1 = size_of v"
    by (rule shape_pop_sparse_done(2) [OF sh p x sparse]) (simp_all add: b0 x)
  have v': "valid ?v" using sh' by (simp add: shape_def)
  have ex: "pop_back (h, v) = Ok () (h', ?v)"
    using v v' f nz p x sz sp h'(1)
    by (simp add: pop_back_def size_vec_exec assert_valid_exec dir_capacity_exec prim_defs)
  have r': "rep (h', ?v) D Bs" using h'(2) sh' n x by (simp add: rep_def count_def)
  have e: "elems ?v Bs = butlast (elems v Bs)"
    by (rule elems_pop_plain) (use p f la in simp_all)
  have fr: "frame h (insert (dir v) (set D)) h' (insert (dir ?v) (set D))"
    using h'(3,4,5) by (auto simp: frame_def)
  from ex r' e fr show ?thesis by blast
qed

lemma pop_back_release:
  assumes r: "rep (h, v) D Bs" and p: "last_buffer_size v = 1" and x: "extra_buffer v"
  shows "\<exists>h' v' D' Bs'. pop_back (h, v) = Ok () (h', v') \<and> rep (h', v') D' Bs' \<and>
           elems v' Bs' = butlast (elems v Bs) \<and>
           frame h (insert (dir v) (set D)) h' (insert (dir v') (set D'))"
proof -
  let ?bc = "buffer_capacity v" and ?n = "dir_size v"
  let ?v2 = "v\<lparr>last_buffer_size := last_buffer_size v - 1, extra_buffer := False\<rparr>"
  let ?h2 = "h\<lparr>bufs := (bufs h)(D ! ?n := None)\<rparr>"
  let ?D2 = "take ?n D" and ?Bs2 = "take ?n Bs"
  from r have l: "laid h (dir v) (dcap v) ?bc D Bs"
    and sh: "shape v" and c: "length D = count v"
    by (simp_all add: rep_def)
  note la = rep_last [OF r]
  from la(5) obtain E where E: "dirs h (dir v) = Some E" "length E = dcap v"
    "\<And>k. k < length D \<Longrightarrow> E ! k = Some (D ! k)" by blast
  have v: "valid v" using sh by (simp add: shape_def)
  have f: "0 < ?n" "0 < log_buffer_capacity v" "last_buffer_size v < ?bc" "0 < dir v" "?n < dcap v"
    using sh p x by (auto simp: shape_iff)
  have nz: "0 < size_of v" using p by (simp add: size_of_def)
  have n: "length D = Suc ?n" using c x by (simp add: count_def)
  have b0: "0 < brk h" using f la(6) by simp
  have bn: "bufs h (D ! ?n) = Some (Bs ! ?n)" "E ! ?n = Some (D ! ?n)"
    using l n E(3) [of ?n] unfolding laid_def by auto
  have dist: "distinct D" using l by (simp add: laid_def)
  have l2: "laid ?h2 (dir ?v2) (dcap ?v2) (buffer_capacity ?v2) ?D2 ?Bs2"
  proof -
    have "a \<noteq> D ! ?n" if "a \<in> set ?D2" for a
      using that dist n by (auto simp: in_set_conv_nth nth_eq_iff_index_eq)
    then show ?thesis
      using laid_take [OF l, of ?n ?h2] n by simp
  qed
  have e2: "elems ?v2 ?Bs2 = butlast (elems v Bs)"
  proof -
    have "elems ?v2 ?Bs2 = elems ?v2 Bs"
      by (rule elems_take) (use f la n in simp_all)
    also have "\<dots> = butlast (elems v Bs)"
      by (rule elems_pop_plain) (use p f la in simp_all)
    finally show ?thesis .
  qed
  have Dn: "D ! ?n \<in> set D" using n by simp
  have fr2: "frame h (insert (dir v) (set D)) ?h2 (insert (dir ?v2) (set ?D2))"
    using Dn by (auto simp: frame_def dest: in_set_takeD)
  have sz2: "size_of ?v2 + 1 = size_of v"
    by (rule shape_pop_release(2) [OF sh p x]) (simp_all add: p)
  show ?thesis
  proof (cases "?n * 4 \<le> dcap v")
    case False
    have sh': "shape ?v2"
      by (rule shape_pop_release(1) [OF sh p x _ _ _ _ _ _ False]) (simp_all add: p)
    have v': "valid ?v2" using sh' by (simp add: shape_def)
    have ex: "pop_back (h, v) = Ok () (?h2, ?v2)"
      using v v' f nz p x sz2 False E(1,2) bn
      by (simp add: pop_back_def size_vec_exec assert_valid_exec dir_capacity_exec prim_defs)
    have r': "rep (?h2, ?v2) ?D2 ?Bs2" using l2 sh' n by (simp add: rep_def count_def)
    from ex r' e2 fr2 show ?thesis by blast
  next
    case True
    have eq: "dcap v = ?n * 4"
      by (rule shape_pop_release(3) [OF sh p x _ _ _ _ _ _ True, of ?v2]) (simp_all add: p)
    show ?thesis
    proof (cases "big_buffer v")
      case False
      let ?v = "?v2\<lparr>dir := brk h, big_buffer := True\<rparr>"
      have "\<exists>h'. downsize (?h2, ?v2) = Ok () (h', ?v2\<lparr>dir := brk ?h2, big_buffer := True\<rparr>) \<and>
           laid h' (dir ?v) (dcap ?v) (buffer_capacity ?v) ?D2 ?Bs2 \<and>
           brk h' = Suc (brk ?h2) \<and> bufs h' = bufs ?h2 \<and>
           (\<forall>a. a \<noteq> dir ?v2 \<and> a \<noteq> brk ?h2 \<longrightarrow> dirs h' a = dirs ?h2 a)"
        using downsize_dir_path [OF l2] False f n eq by simp
      then obtain h' where h': "downsize (?h2, ?v2) = Ok () (h', ?v)"
          "laid h' (dir ?v) (dcap ?v) (buffer_capacity ?v) ?D2 ?Bs2"
          "brk h' = Suc (brk h)" "bufs h' = bufs ?h2"
          "\<forall>a. a \<noteq> dir v \<and> a \<noteq> brk h \<longrightarrow> dirs h' a = dirs h a"
        by auto
      have sh': "shape ?v"
        by (rule shape_pop_release_dir(1) [OF sh p x eq False]) (simp_all add: b0 p)
      have sz: "size_of ?v + 1 = size_of v"
        by (rule shape_pop_release_dir(2) [OF sh p x eq False]) (simp_all add: b0 p)
      have v': "valid ?v" using sh' by (simp add: shape_def)
      have ex: "pop_back (h, v) = Ok () (h', ?v)"
        using v v' f nz p x sz eq E(1,2) bn h'(1) False
        by (simp add: pop_back_def size_vec_exec assert_valid_exec dir_capacity_exec prim_defs)
      have r': "rep (h', ?v) ?D2 ?Bs2" using h'(2) sh' n by (simp add: rep_def count_def)
      have e: "elems ?v ?Bs2 = butlast (elems v Bs)"
        using e2 by (simp add: elems_def)
      have fr: "frame h (insert (dir v) (set D)) h' (insert (dir ?v) (set ?D2))"
        using h'(3,4,5) Dn by (auto simp: frame_def dest: in_set_takeD)
      from ex r' e fr show ?thesis by blast
    next
      case True
      let ?n1 = "?n - 1"
      let ?v = "?v2\<lparr>dir_size := 2 * ?n - 1,
                    log_buffer_capacity := log_buffer_capacity v - 1, big_buffer := False\<rparr>"
      let ?D3 = "map (new_at (brk h) ?n1) [0..<2 * ?n1] @ [brk h + 2 * ?n1]"
      let ?Bs3 = "map (\<lambda>m. half ?bc (m mod 2) (?Bs2 ! (m div 2))) [0..<2 * ?n1] @ [replicate (?bc div 2) None]"
      have "\<exists>h'. downsize (?h2, ?v2) = Ok () (h', ?v2\<lparr>dir_size := 2 * dir_size ?v2 - 1,
                    log_buffer_capacity := log_buffer_capacity ?v2 - 1, big_buffer := False\<rparr>) \<and>
           laid h' (dir ?v) (dcap ?v) (buffer_capacity ?v)
             (map (new_at (brk ?h2) (dir_size ?v2 - 1)) [0..<2 * (dir_size ?v2 - 1)] @ [brk ?h2 + 2 * (dir_size ?v2 - 1)])
             (map (\<lambda>m. half (buffer_capacity ?v2) (m mod 2) (?Bs2 ! (m div 2))) [0..<2 * (dir_size ?v2 - 1)]
                @ [replicate (buffer_capacity ?v2 div 2) None]) \<and>
           brk h' = brk ?h2 + 2 * (dir_size ?v2 - 1) + 1 \<and>
           (\<forall>a. a \<noteq> dir ?v2 \<longrightarrow> dirs h' a = dirs ?h2 a) \<and>
           (\<forall>a. a < brk ?h2 \<and> a \<notin> set ?D2 \<longrightarrow> bufs h' a = bufs ?h2 a)"
        using downsize_buffers_path [OF l2] True f n eq p by simp
      then obtain h' where h': "downsize (?h2, ?v2) = Ok () (h', ?v)"
          "laid h' (dir ?v) (dcap ?v) (buffer_capacity ?v) ?D3 ?Bs3"
          "brk h' = brk h + 2 * ?n1 + 1"
          "\<forall>a. a \<noteq> dir v \<longrightarrow> dirs h' a = dirs h a"
          "\<forall>a. a < brk h \<and> a \<notin> set ?D2 \<longrightarrow> bufs h' a = bufs ?h2 a"
        by auto
      have sh': "shape ?v"
        by (rule shape_pop_release_buf(1) [OF sh p x eq True]) (simp_all add: p)
      have sz: "size_of ?v + 1 = size_of v"
        by (rule shape_pop_release_buf(2) [OF sh p x eq True]) (simp_all add: p)
      have v': "valid ?v" using sh' by (simp add: shape_def)
      have ex: "pop_back (h, v) = Ok () (h', ?v)"
        using v v' f nz p x sz eq E(1,2) bn h'(1) True
        by (simp add: pop_back_def size_vec_exec assert_valid_exec dir_capacity_exec prim_defs)
      have r': "rep (h', ?v) ?D3 ?Bs3" using h'(2) sh' f by (simp add: rep_def count_def)
      have u: "\<forall>B\<in>set ?Bs2. length B = ?bc" using laid_uniform [OF l2] by simp
      have "concat (map (\<lambda>m. half ?bc (m mod 2) (?Bs2 ! (m div 2))) [0..<2 * ?n1]) = concat (take ?n1 ?Bs2)"
        by (rule concat_halves [OF _ u]) (use la(2) n in simp)
      then have e: "elems ?v ?Bs3 = butlast (elems v Bs)"
        using e2 f by (simp add: elems_def p)
      have fr: "frame h (insert (dir v) (set D)) h' (insert (dir ?v) (set ?D3))"
      proof -
        have "a \<in> {brk h..<brk h'}" if "a \<in> set ?D3" for a
        proof -
          from that consider m where "m < 2 * ?n1" "a = new_at (brk h) ?n1 m" | "a = brk h + 2 * ?n1"
            by auto
          then show ?thesis
          proof cases
            case 1
            with new_at_bounds [OF 1(1), of "brk h"] h'(3) show ?thesis by simp
          next
            case 2
            with h'(3) show ?thesis by simp
          qed
        qed
        moreover have "bufs h' a = bufs h a" if "a < brk h" "a \<notin> set D" for a
        proof -
          have "a \<notin> set ?D2" "a \<noteq> D ! ?n" using that(2) n by (auto dest: in_set_takeD)
          then show ?thesis using h'(5) that(1) by simp
        qed
        ultimately show ?thesis using h'(3,4) unfolding frame_def by auto
      qed
      from ex r' e fr show ?thesis by blast
    qed
  qed
qed

lemma pop_back_rep:
  assumes r: "rep (h, v) D Bs" and nz: "0 < size_of v"
  shows "\<exists>h' v' D' Bs'. pop_back (h, v) = Ok () (h', v') \<and> rep (h', v') D' Bs' \<and>
           elems v' Bs' = butlast (elems v Bs) \<and>
           frame h (insert (dir v) (set D)) h' (insert (dir v') (set D'))"
proof (cases "last_buffer_size v = 0")
  case True
  then show ?thesis by (rule pop_back_borrow [OF r nz])
next
  case False
  then have p: "0 < last_buffer_size v" by simp
  show ?thesis
  proof (cases "last_buffer_size v = 1 \<and> extra_buffer v")
    case True
    then show ?thesis using pop_back_release [OF r] by blast
  next
    case q: False
    show ?thesis
    proof (cases "extra_buffer v \<or> dcap v < 4 * dir_size v")
      case True
      then show ?thesis by (rule pop_back_plain [OF r p q])
    next
      case False
      then show ?thesis using pop_back_sparse [OF r p] by blast
    qed
  qed
qed

lemma vector_ctor_rep:
  assumes "0 < brk h"
  shows "\<exists>h' v' D' Bs'. vector_ctor h = Ok () (h', v') \<and> rep (h', v') D' Bs' \<and>
           elems v' Bs' = [] \<and> frame h {} h' (insert (dir v') (set D'))"
proof -
  let ?v = "\<lparr>dir = brk h, dir_size = 1, last_buffer_size = 0,
              log_buffer_capacity = 1, big_buffer = True, extra_buffer = False\<rparr>"
  let ?h = "h\<lparr>bufs := (bufs h)(Suc (brk h) \<mapsto> replicate 2 None),
              dirs := (dirs h)(brk h \<mapsto> [Some (Suc (brk h))]),
              brk := Suc (Suc (brk h))\<rparr>"
  have sh: "shape ?v" using assms by (simp add: shape_iff dcap_def buffer_capacity_pow)
  then have v: "valid ?v" by (simp add: shape_def)
  have ex: "vector_ctor h = Ok () (?h, ?v)"
    using v by (simp add: vector_ctor_def Let_def prim_defs assert_valid_exec buffer_capacity_def)
  have "laid ?h (dir ?v) (dcap ?v) (buffer_capacity ?v) [Suc (brk h)] [replicate 2 None]"
    using assms by (simp add: laid_def dcap_def buffer_capacity_pow)
  then have r: "rep (?h, ?v) [Suc (brk h)] [replicate 2 None]"
    using sh by (simp add: rep_def count_def)
  have e: "elems ?v [replicate 2 None] = []" by (simp add: elems_def)
  have fr: "frame h {} ?h (insert (dir ?v) (set [Suc (brk h)]))"
    by (auto simp: frame_def)
  from ex r e fr show ?thesis by blast
qed

definition Inv :: "'a state \<Rightarrow> 'a option list \<Rightarrow> bool" where
  "Inv s cs \<longleftrightarrow> (\<exists>D Bs. rep s D Bs \<and> elems (this s) Bs = cs)"

lemma Inv_size:
  assumes "Inv s cs"
  shows "size_vec s = Ok (length cs) s" and "size_of (this s) = length cs" and "valid (this s)"
proof -
  from assms obtain D Bs where r: "rep s D Bs" and e: "elems (this s) Bs = cs"
    unfolding Inv_def by blast
  from rep_valid [OF r] show v: "valid (this s)" .
  from rep_elems_length [OF r] e show n: "size_of (this s) = length cs" by simp
  from v have "0 < dir_size (this s)" by (simp add: valid_def)
  from size_vec_exec [OF this] n show "size_vec s = Ok (length cs) s" by simp
qed

lemma Inv_index_get:
  assumes "Inv s cs" "i < length cs"
  shows "index_get i s = Ok (cs ! i) s"
proof -
  from assms obtain D Bs where r: "rep s D Bs" and e: "elems (this s) Bs = cs"
    unfolding Inv_def by blast
  from rep_elems_length [OF r] e assms(2) have "i < size_of (this s)" by simp
  from index_get_exec [OF r this] e show ?thesis by simp
qed

lemma Inv_push_back:
  assumes "Inv s cs"
  shows "\<exists>s'. push_back x s = Ok () s' \<and> Inv s' (cs @ [Some x])"
proof -
  obtain h v where s: "s = (h, v)" by (cases s)
  from assms obtain D Bs where r: "rep (h, v) D Bs" and e: "elems v Bs = cs"
    unfolding Inv_def s by auto
  from push_back_rep [OF r, of x] e show ?thesis unfolding Inv_def s by fastforce
qed

lemma Inv_pop_back:
  assumes "Inv s cs" "cs \<noteq> []"
  shows "\<exists>s'. pop_back s = Ok () s' \<and> Inv s' (butlast cs)"
proof -
  obtain h v where s: "s = (h, v)" by (cases s)
  from assms obtain D Bs where r: "rep (h, v) D Bs" and e: "elems v Bs = cs"
    unfolding Inv_def s by auto
  have "0 < size_of v" using Inv_size(2) [OF assms(1)] assms(2) by (simp add: s)
  from pop_back_rep [OF r this] e show ?thesis unfolding Inv_def s by fastforce
qed

lemma Inv_index_put:
  assumes "Inv s cs" "i < length cs"
  shows "\<exists>s'. index_put i x s = Ok () s' \<and> Inv s' (cs[i := Some x])"
proof -
  obtain h v where s: "s = (h, v)" by (cases s)
  from assms obtain D Bs where r: "rep (h, v) D Bs" and e: "elems v Bs = cs"
    unfolding Inv_def s by auto
  have "i < size_of v" using Inv_size(2) [OF assms(1)] assms(2) by (simp add: s)
  from index_put_rep [OF r this, of x] e show ?thesis unfolding Inv_def s by fastforce
qed

lemma Inv_exec:
  assumes "Inv s (map Some xs)" "permitted c xs"
  shows "\<exists>s'. exec c s = Ok () s' \<and> Inv s' (map Some (ref_exec c xs))"
proof (cases c)
  case (Push x)
  then show ?thesis using Inv_push_back [OF assms(1), of x] by simp
next
  case Pop
  then show ?thesis using Inv_pop_back [OF assms(1)] assms(2) by (simp add: map_butlast)
next
  case (Put i x)
  then show ?thesis using Inv_index_put [OF assms(1), of i x] assms(2) by (simp add: map_update)
qed

lemma Inv_run:
  "Inv s (map Some xs) \<Longrightarrow> contract cs xs \<Longrightarrow>
     \<exists>s'. run cs s = Ok () s' \<and> Inv s' (map Some (ref_run cs xs))"
proof (induction cs arbitrary: s xs)
  case Nil
  then show ?case by simp
next
  case (Cons c cs)
  from Cons.prems have p: "permitted c xs" and rest: "contract cs (ref_exec c xs)" by simp_all
  from Inv_exec [OF Cons.prems(1) p] obtain s1 where
    s1: "exec c s = Ok () s1" "Inv s1 (map Some (ref_exec c xs))" by blast
  from Cons.IH [OF s1(2) rest] s1(1) show ?case by simp
qed

lemma Inv_vector_ctor:
  "\<exists>s. vector_ctor empty_heap = Ok () s \<and> Inv s []"
proof -
  have "0 < brk (empty_heap :: 'a heap)" by (simp add: empty_heap_def)
  from vector_ctor_rep [OF this] show ?thesis unfolding Inv_def by fastforce
qed

lemma Inv_run_vector:
  assumes "contract cs []"
  shows "\<exists>s. run_vector cs = Ok () s \<and> Inv s (map Some (ref_run cs []))"
proof -
  obtain s0 :: "'a state" where s0: "vector_ctor empty_heap = Ok () s0" "Inv s0 (map Some [])"
    using Inv_vector_ctor by auto
  from Inv_run [OF s0(2) assms] s0(1) show ?thesis by (simp add: run_vector_def)
qed

text \<open>
  C1. After any run of \<^verbatim>\<open>push_back\<close>, \<^verbatim>\<open>pop_back\<close> (on a non-empty container) and
  assignments through \<^verbatim>\<open>operator[]\<close> (below the size) on a default-constructed container,
  the run succeeds, \<^verbatim>\<open>size()\<close> is the length of the reference sequence under the same
  operations, and \<^verbatim>\<open>operator[](i)\<close> yields the reference sequence's element at every
  \<open>i\<close> below the size.
\<close>

theorem index_fidelity:
  assumes "contract cs []"
  shows "\<exists>s. run_vector cs = Ok () s \<and>
           size_vec s = Ok (length (ref_run cs [])) s \<and>
           (\<forall>i<length (ref_run cs []). index_get i s = Ok (Some (ref_run cs [] ! i)) s)"
proof -
  from Inv_run_vector [OF assms] obtain s where
    s: "run_vector cs = Ok () s" "Inv s (map Some (ref_run cs []))" by blast
  from Inv_size(1) [OF s(2)] Inv_index_get [OF s(2)] s(1) show ?thesis by auto
qed

theorem index_fidelity_witness:
  "contract [Push (7::nat), Push 8, Pop, Push 9, Put 0 5] [] \<and>
   (\<exists>s. run_vector [Push (7::nat), Push 8, Pop, Push 9, Put 0 5] = Ok () s \<and>
        size_vec s = Ok 2 s \<and> index_get 0 s = Ok (Some 5) s \<and> index_get 1 s = Ok (Some 9) s)"
  using index_fidelity [of "[Push (7::nat), Push 8, Pop, Push 9, Put 0 5]"]
  by (auto simp: numeral_2_eq_2 less_Suc_eq all_conj_distrib)

lemma reach_Inv:
  assumes "contract cs []" "run_vector cs = Ok () s"
  shows "Inv s (map Some (ref_run cs []))"
  using Inv_run_vector [OF assms(1)] assms(2) by auto

lemma Inv_shape: "Inv s cs \<Longrightarrow> shape (this s)"
  unfolding Inv_def rep_def by blast

lemma buffer_capacity_small_or_big:
  "buffer_capacity v \<le> 16 \<or> 32 \<le> buffer_capacity v"
proof (cases "log_buffer_capacity v \<le> 4")
  case True
  then have "(2::nat) ^ log_buffer_capacity v \<le> 2 ^ 4" by (simp only: power_increasing_iff)
  then show ?thesis by (simp add: buffer_capacity_pow)
next
  case False
  then have "5 \<le> log_buffer_capacity v" by simp
  then have "(2::nat) ^ 5 \<le> 2 ^ log_buffer_capacity v" by (simp only: power_increasing_iff)
  then show ?thesis by (simp add: buffer_capacity_pow)
qed

lemma shape_sqrt_bound:
  assumes sh: "shape v" and n: "16 \<le> size_of v"
  shows "buffer_capacity v * buffer_capacity v \<le> 16 * size_of v"
proof -
  let ?b = "buffer_capacity v" and ?c = "dcap v" and ?d = "dir_size v"
  have lbc: "0 < log_buffer_capacity v" and d: "0 < ?d" using sh by (simp_all add: shape_iff)
  have bc: "?b \<le> 2 * ?c" using caps(1) [OF lbc] by (simp split: if_splits)
  have c: "?c \<le> 4 * ?d + 4" using sh by (cases "extra_buffer v") (auto simp: shape_iff)
  have ge: "(?d - 1) * ?b \<le> size_of v" by (simp add: size_of_def)
  from buffer_capacity_small_or_big [of v] show ?thesis
  proof
    assume "?b \<le> 16"
    then have "?b * ?b \<le> 16 * 16" using mult_le_mono [of ?b 16 ?b 16] by simp
    with n show ?thesis by simp
  next
    assume "32 \<le> ?b"
    then have "?b \<le> 16 * (?d - 1)" using bc c by simp
    then have "?b * ?b \<le> 16 * (?d - 1) * ?b" by simp
    also have "\<dots> \<le> 16 * size_of v" using ge by simp
    finally show ?thesis .
  qed
qed

text \<open>
  C2. In every state reached from the default-constructed container by a run of public
  operations, the element slots allocated over all buffers, the extra buffer included,
  exceed the size by at most two buffer capacities; and once the size is at least 16 the
  buffer capacity is at most four times the square root of the size, so that the slack is
  at most eight times that square root.
\<close>

theorem space_bound:
  assumes "contract cs []" and "run_vector cs = Ok () s"
  shows "\<exists>n. size_vec s = Ok n s \<and>
           n \<le> (dir_size (this s) + (if extra_buffer (this s) then 1 else 0)) * buffer_capacity (this s) \<and>
           (dir_size (this s) + (if extra_buffer (this s) then 1 else 0)) * buffer_capacity (this s)
             \<le> n + 2 * buffer_capacity (this s) \<and>
           (16 \<le> n \<longrightarrow>
              buffer_capacity (this s) * buffer_capacity (this s) \<le> 16 * n \<and>
              real ((dir_size (this s) + (if extra_buffer (this s) then 1 else 0)) * buffer_capacity (this s))
                \<le> real n + 8 * sqrt (real n))"
proof -
  let ?v = "this s"
  let ?b = "buffer_capacity ?v" and ?d = "dir_size ?v"
  let ?slots = "(?d + (if extra_buffer ?v then 1 else 0)) * ?b"
  let ?n = "size_of ?v"
  from reach_Inv [OF assms] have inv: "Inv s (map Some (ref_run cs []))" .
  note sz = Inv_size [OF inv]
  have sh: "shape ?v" by (rule Inv_shape [OF inv])
  have d: "0 < ?d" and lb: "last_buffer_size ?v < ?b" using sh by (simp_all add: shape_iff)
  obtain k where k: "?d = Suc k" using d by (cases ?d) auto
  have lo: "?n \<le> ?slots" using lb by (simp add: size_of_def k)
  have hi: "?slots \<le> ?n + 2 * ?b" by (simp add: size_of_def k)
  have big: "?b * ?b \<le> 16 * ?n \<and> real ?slots \<le> real ?n + 8 * sqrt (real ?n)" if n: "16 \<le> ?n"
  proof
    show b2: "?b * ?b \<le> 16 * ?n" by (rule shape_sqrt_bound [OF sh n])
    have "real (?b * ?b) \<le> real (16 * ?n)" using b2 by (simp only: of_nat_le_iff)
    then have "(real ?b)\<^sup>2 \<le> real (16 * ?n)" by (simp add: power2_eq_square)
    then have "real ?b \<le> sqrt (real (16 * ?n))" by (rule real_le_rsqrt)
    also have "\<dots> = 4 * sqrt (real ?n)" by (simp add: real_sqrt_mult)
    finally have "2 * real ?b \<le> 8 * sqrt (real ?n)" by simp
    moreover have "real ?slots \<le> real (?n + 2 * ?b)" using hi by (simp only: of_nat_le_iff)
    then have "real ?slots \<le> real ?n + 2 * real ?b" by simp
    ultimately show "real ?slots \<le> real ?n + 8 * sqrt (real ?n)" by linarith
  qed
  from sz(1) sz(2) lo hi big show ?thesis by (intro exI [of _ ?n]) simp
qed

theorem space_bound_witness:
  "contract (map Push [0..<(20::nat)]) [] \<and>
   (\<exists>s. run_vector (map Push [0..<(20::nat)]) = Ok () s \<and> size_vec s = Ok 20 s \<and>
        (dir_size (this s) + (if extra_buffer (this s) then 1 else 0)) * buffer_capacity (this s)
             \<le> 20 + 2 * buffer_capacity (this s) \<and>
        buffer_capacity (this s) * buffer_capacity (this s) \<le> 16 * 20)"
proof -
  let ?cs = "map Push [0..<(20::nat)]"
  have c: "contract ?cs []" by code_simp
  have n: "length (ref_run ?cs []) = 20" by code_simp
  obtain s where s: "run_vector ?cs = Ok () s" and inv: "Inv s (map Some (ref_run ?cs []))"
    using Inv_run_vector [OF c] by blast
  have "size_vec s = Ok 20 s" using Inv_size(1) [OF inv] n by simp
  with space_bound [OF c s] c s show ?thesis by auto
qed

lemma size_vec_state: "size_vec s = Ok n t \<Longrightarrow> t = s \<and> 0 < dir_size (this s) \<and> n = size_of (this s)"
  by (auto simp: size_vec_def assert_def size_of_def buffer_capacity_pow push_bit_eq_mult split: if_splits)

text \<open>
  C8. In the checked build, \<^verbatim>\<open>pop_back()\<close> on a container whose size is 0 and an indexed
  access at or beyond the size end in a failed assertion, and the state at the failure is
  the state at entry: nothing has been changed.
\<close>

theorem violations_detected:
  assumes "size_vec s = Ok n s"
  shows "(n = 0 \<longrightarrow> pop_back s = Abort Assertion s) \<and>
         (n \<le> i \<longrightarrow> pget i s = Abort Assertion s \<and> index_get i s = Abort Assertion s \<and>
                    index_put i x s = Abort Assertion s)"
proof -
  from size_vec_state [OF assms] have d: "0 < dir_size (this s)" and n: "n = size_of (this s)"
    by simp_all
  have "pop_back s = Abort Assertion s" if "n = 0"
    using that n d by (simp add: pop_back_def size_vec_exec assert_valid_exec assert_def)
  moreover have p: "pget i s = Abort Assertion s" if "n \<le> i"
    using that n d by (simp add: pget_def size_vec_exec assert_valid_exec assert_def)
  ultimately show ?thesis by (simp add: index_get_def index_put_def)
qed

theorem violations_detected_witness:
  "\<exists>s :: nat state. vector_ctor empty_heap = Ok () s \<and> size_vec s = Ok 0 s \<and>
     pop_back s = Abort Assertion s \<and> pget 0 s = Abort Assertion s \<and>
     index_get 0 s = Abort Assertion s \<and> index_put 0 1 s = Abort Assertion s"
proof -
  obtain s :: "nat state" where s: "vector_ctor empty_heap = Ok () s" "Inv s []"
    using Inv_vector_ctor by blast
  have z: "size_vec s = Ok 0 s" using Inv_size(1) [OF s(2)] by simp
  from violations_detected [OF z, of 0 1] s(1) z show ?thesis by auto
qed

text \<open>
  The steps of \<^verbatim>\<open>pop_back\<close> as the specification words them: the adjustment of the last
  buffer, which leaves the state \<open>adjusted s\<close>, then the test that triggers
  \<^verbatim>\<open>downsize()\<close>. \<open>dcap\<close> is the value of \<^verbatim>\<open>dir_capacity()\<close>.
\<close>

definition free_extra :: "'a state \<Rightarrow> 'a heap" where
  "free_extra s =
     (case dirs (heap s) (dir (this s)) of
        None \<Rightarrow> heap s
      | Some E \<Rightarrow>
          (case E ! dir_size (this s) of
             None \<Rightarrow> heap s
           | Some b \<Rightarrow> (heap s)\<lparr>bufs := (bufs (heap s))(b := None)\<rparr>))"

definition adjusted :: "'a state \<Rightarrow> 'a state" where
  "adjusted s =
     (if last_buffer_size (this s) = 0 then
        (heap s, (this s)\<lparr>last_buffer_size := buffer_capacity (this s) - 1,
                            dir_size := dir_size (this s) - 1, extra_buffer := True\<rparr>)
      else if last_buffer_size (this s) - 1 = 0 \<and> extra_buffer (this s) then
        (free_extra s, (this s)\<lparr>last_buffer_size := last_buffer_size (this s) - 1,
                                  extra_buffer := False\<rparr>)
      else (heap s, (this s)\<lparr>last_buffer_size := last_buffer_size (this s) - 1\<rparr>))"

definition triggers :: "'a state \<Rightarrow> bool" where
  "triggers m \<longleftrightarrow>
     (dir_size (this m) + (if extra_buffer (this m) then 1 else 0)) * 4 \<le> dcap (this m)"

definition spec_pop_back :: "'a state \<Rightarrow> (unit, 'a state) outcome" where
  "spec_pop_back s = (if triggers (adjusted s) then downsize (adjusted s) else Ok () (adjusted s))"

lemma checks_keep_state:
  "bind (assert_valid s) (\<lambda>_ s. bind (size_vec s) (\<lambda>n s. assert (P n) s)) = Ok u t \<Longrightarrow> t = s"
  by (auto simp: assert_valid_exec bind_eq_Ok assert_def dest!: size_vec_state split: if_splits)

lemma pop_back_unfold:
  assumes r: "rep (h, v) D Bs" and nz: "0 < size_of v"
  defines "m \<equiv> adjusted (h, v)"
  shows "pop_back (h, v) =
           bind (if triggers m
                 then bind (assert ((dir_size (this m) + (if extra_buffer (this m) then 1 else 0)) * 4
                                      = dcap (this m)) m) (\<lambda>_ t. downsize t)
                 else Ok () m) (\<lambda>_ s.
           bind (assert_valid s) (\<lambda>_ s.
           bind (size_vec s) (\<lambda>n s. assert (n + 1 = size_of v) s)))"
proof -
  from r have l: "laid h (dir v) (dcap v) (buffer_capacity v) D Bs"
    and sh: "shape v" and c: "length D = count v"
    by (simp_all add: rep_def)
  from rep_last(5) [OF r] obtain E where E: "dirs h (dir v) = Some E" "length E = dcap v"
    "\<And>k. k < length D \<Longrightarrow> E ! k = Some (D ! k)" by blast
  have v: "valid v" using sh by (simp add: shape_def)
  have f: "0 < dir_size v" "0 < log_buffer_capacity v" using sh by (simp_all add: shape_iff)
  show ?thesis
  proof (cases "last_buffer_size v = 0")
    case True
    then have x: "\<not> extra_buffer v" using sh by (auto simp: shape_iff)
    have d2: "0 < dir_size v - Suc 0" using True nz by (cases "dir_size v \<le> 1") (auto simp: size_of_def)
    have d4: "(dir_size v - Suc 0) * 4 + 4 = dir_size v * 4" using f by (cases "dir_size v") simp_all
    show ?thesis using True x v f nz d2
      by (simp add: d4 pop_back_def size_vec_exec assert_valid_exec dir_capacity_exec prim_defs
          m_def adjusted_def triggers_def)
  next
    case False
    show ?thesis
    proof (cases "last_buffer_size v - 1 = 0 \<and> extra_buffer v")
      case True
      then have n: "dir_size v < length D" "dir_size v < dcap v" using c sh by (simp_all add: count_def shape_iff)
      from l n have b: "bufs h (D ! dir_size v) = Some (Bs ! dir_size v)" unfolding laid_def by auto
      show ?thesis using True False v f nz E(1,2) E(3) [OF n(1)] n b
        by (simp add: pop_back_def size_vec_exec assert_valid_exec dir_capacity_exec prim_defs
            m_def adjusted_def triggers_def free_extra_def)
    next
      case q: False
      show ?thesis using q False v f nz
        by (auto simp: pop_back_def size_vec_exec assert_valid_exec dir_capacity_exec prim_defs
            m_def adjusted_def triggers_def)
    qed
  qed
qed

lemma pop_back_decompose:
  assumes inv: "Inv s cs" and ne: "cs \<noteq> []"
  shows "\<exists>s'. pop_back s = Ok () s' \<and> Inv s' (butlast cs) \<and> spec_pop_back s = Ok () s' \<and>
           (triggers (adjusted s) \<longrightarrow>
              (dir_size (this (adjusted s)) + (if extra_buffer (this (adjusted s)) then 1 else 0)) * 4
                = dcap (this (adjusted s)))"
proof -
  obtain h v where s: "s = (h, v)" by (cases s)
  from inv obtain D Bs where r: "rep (h, v) D Bs" unfolding Inv_def s by auto
  have nz: "0 < size_of v" using Inv_size(2) [OF inv] ne by (simp add: s)
  let ?m = "adjusted (h, v)"
  let ?P = "if triggers ?m
            then bind (assert ((dir_size (this ?m) + (if extra_buffer (this ?m) then 1 else 0)) * 4
                                 = dcap (this ?m)) ?m) (\<lambda>_ t. downsize t)
            else Ok () ?m"
  from Inv_pop_back [OF inv ne] obtain s' where s': "pop_back s = Ok () s'" "Inv s' (butlast cs)"
    by blast
  have "bind ?P (\<lambda>_ s. bind (assert_valid s) (\<lambda>_ s. bind (size_vec s) (\<lambda>n s. assert (n + 1 = size_of v) s)))
          = Ok () s'"
    using s'(1) pop_back_unfold [OF r nz] by (simp add: s)
  from this [THEN bind_eq_Ok [THEN iffD1]] obtain u t where
    P: "?P = Ok u t" and chk: "bind (assert_valid t) (\<lambda>_ s. bind (size_vec s) (\<lambda>n s. assert (n + 1 = size_of v) s)) = Ok () s'"
    by blast
  from checks_keep_state [OF chk] have "s' = t" .
  with P have P': "?P = Ok () s'" by simp
  show ?thesis
  proof (cases "triggers ?m")
    case True
    with P' have "(dir_size (this ?m) + (if extra_buffer (this ?m) then 1 else 0)) * 4 = dcap (this ?m)"
      and "downsize ?m = Ok () s'"
      by (auto simp: assert_def split: if_splits)
    with s' True show ?thesis by (auto simp: s spec_pop_back_def)
  next
    case False
    with P' s' show ?thesis by (auto simp: s spec_pop_back_def)
  qed
qed

text \<open>
  C4. On a non-empty array reached by public operations \<^verbatim>\<open>pop_back()\<close> is the adjustment of
  the last buffer followed by \<^verbatim>\<open>downsize()\<close> exactly when
  \<^verbatim>\<open>(dir_size + (extra_buffer ? 1 : 0)) * 4 <= dir_capacity()\<close> holds after the adjustment
  (\<open>spec_pop_back\<close>): when \<^verbatim>\<open>last_buffer_size\<close> is 0 it becomes \<^verbatim>\<open>buffer_capacity() - 1\<close>,
  \<^verbatim>\<open>dir_size\<close> is decremented, \<^verbatim>\<open>extra_buffer\<close> is set and the store is left as it is;
  otherwise \<^verbatim>\<open>last_buffer_size\<close> is decremented and an extra buffer is freed when it reaches
  0. The call returns, and \<^verbatim>\<open>size()\<close> is one less than before.
\<close>

theorem pop_back_as_specified:
  assumes "contract cs []" and "run_vector cs = Ok () s" and "size_vec s = Ok n s" and "0 < n"
  shows "pop_back s = spec_pop_back s \<and>
         (\<exists>s'. pop_back s = Ok () s' \<and> size_vec s' = Ok (n - 1) s')"
proof -
  let ?xs = "map Some (ref_run cs [])"
  from reach_Inv [OF assms(1,2)] have inv: "Inv s ?xs" .
  from Inv_size(1) [OF inv] assms(3) have n: "n = length ?xs" by simp
  with assms(4) have ne: "?xs \<noteq> []" by auto
  from pop_back_decompose [OF inv ne] obtain s' where
    s': "pop_back s = Ok () s'" "Inv s' (butlast ?xs)" "spec_pop_back s = Ok () s'"
    by blast
  from Inv_size(1) [OF s'(2)] n have "size_vec s' = Ok (n - 1) s'" by simp
  with s'(1,3) show ?thesis by simp
qed

theorem pop_back_as_specified_witness:
  "contract (map Push [0..<(9::nat)]) [] \<and>
   (\<exists>s. run_vector (map Push [0..<(9::nat)]) = Ok () s \<and> size_vec s = Ok 9 s \<and> (0::nat) < 9 \<and>
        pop_back s = spec_pop_back s \<and>
        (\<exists>s'. pop_back s = Ok () s' \<and> size_vec s' = Ok 8 s'))"
proof -
  let ?cs = "map Push [0..<(9::nat)]"
  have c: "contract ?cs []" by code_simp
  have n: "length (ref_run ?cs []) = 9" by code_simp
  obtain s where s: "run_vector ?cs = Ok () s" and inv: "Inv s (map Some (ref_run ?cs []))"
    using Inv_run_vector [OF c] by blast
  have z: "size_vec s = Ok 9 s" using Inv_size(1) [OF inv] n by simp
  have p: "(0::nat) < 9" by simp
  note t = pop_back_as_specified [OF c s z p]
  from t have a: "pop_back s = spec_pop_back s" by (rule conjunct1)
  from t obtain s' where s': "pop_back s = Ok () s'" "size_vec s' = Ok (9 - 1) s'" by blast
  from s'(2) have "size_vec s' = Ok 8 s'" by simp
  with s'(1) have b: "\<exists>s'. pop_back s = Ok () s' \<and> size_vec s' = Ok 8 s'" by blast
  from c s z p a b show ?thesis by blast
qed

text \<open>
  The statements of \<^verbatim>\<open>pop_back()\<close> before the test that calls \<^verbatim>\<open>downsize()\<close>, and the
  statements from that test on; \<open>pop_back_split\<close> shows that \<open>pop_back\<close> is the one followed by
  the other.
\<close>

definition pop_back_prefix :: "'a state \<Rightarrow> (nat, 'a state) outcome" where
  "pop_back_prefix s =
     bind (size_vec s) (\<lambda>old_size s.
     bind (assert_valid s) (\<lambda>_ s.
     bind (size_vec s) (\<lambda>n s.
     bind (assert (n > 0) s) (\<lambda>_ s.
     bind (if 0 = last_buffer_size (this s) then
             bind (assert (\<not> extra_buffer (this s)) s) (\<lambda>_ s.
             bind (modify (\<lambda>v. v\<lparr>last_buffer_size := buffer_capacity v - 1\<rparr>) s) (\<lambda>_ s.
             bind (modify (\<lambda>v. v\<lparr>dir_size := dir_size v - 1\<rparr>) s) (\<lambda>_ s.
               modify (\<lambda>v. v\<lparr>extra_buffer := True\<rparr>) s)))
           else
             bind (modify (\<lambda>v. v\<lparr>last_buffer_size := last_buffer_size v - 1\<rparr>) s) (\<lambda>_ s.
               if 0 = last_buffer_size (this s) \<and> extra_buffer (this s) then
                 bind (dir_get (dir_size (this s)) s) (\<lambda>b s.
                 bind (delete_buf b s) (\<lambda>_ s.
                   modify (\<lambda>v. v\<lparr>extra_buffer := False\<rparr>) s))
               else Ok () s)) (\<lambda>_ s.
       Ok old_size s)))))"

definition pop_back_suffix :: "nat \<Rightarrow> 'a state \<Rightarrow> (unit, 'a state) outcome" where
  "pop_back_suffix old_size s =
     bind (dir_capacity s) (\<lambda>c s.
     bind (if (dir_size (this s) + (if extra_buffer (this s) then 1 else 0)) * 4 \<le> c then
             bind (dir_capacity s) (\<lambda>c s.
             bind (assert ((dir_size (this s) + (if extra_buffer (this s) then 1 else 0)) * 4 = c) s) (\<lambda>_ s.
               downsize s))
           else Ok () s) (\<lambda>_ s.
     bind (assert_valid s) (\<lambda>_ s.
     bind (size_vec s) (\<lambda>n s.
       assert (n + 1 = old_size) s))))"

lemma bind_assoc: "bind (bind m f) g = bind m (\<lambda>x s. bind (f x s) g)"
  by (cases m) simp_all

lemma pop_back_split: "pop_back s = bind (pop_back_prefix s) pop_back_suffix"
  unfolding pop_back_def pop_back_prefix_def pop_back_suffix_def
  by (simp only: bind_assoc bind_Ok)

lemma pop_back_prefix_exec:
  assumes r: "rep (h, v) D Bs" and nz: "0 < size_of v"
  shows "pop_back_prefix (h, v) = Ok (size_of v) (adjusted (h, v))"
proof -
  from r have l: "laid h (dir v) (dcap v) (buffer_capacity v) D Bs"
    and sh: "shape v" and c: "length D = count v"
    by (simp_all add: rep_def)
  from rep_last(5) [OF r] obtain E where E: "dirs h (dir v) = Some E" "length E = dcap v"
    "\<And>k. k < length D \<Longrightarrow> E ! k = Some (D ! k)" by blast
  have v: "valid v" using sh by (simp add: shape_def)
  have f: "0 < dir_size v" "0 < log_buffer_capacity v" using sh by (simp_all add: shape_iff)
  show ?thesis
  proof (cases "last_buffer_size v = 0")
    case True
    then have x: "\<not> extra_buffer v" using sh by (auto simp: shape_iff)
    show ?thesis using True x v f nz
      by (simp add: pop_back_prefix_def size_vec_exec assert_valid_exec prim_defs adjusted_def)
  next
    case False
    show ?thesis
    proof (cases "last_buffer_size v - 1 = 0 \<and> extra_buffer v")
      case True
      then have n: "dir_size v < length D" "dir_size v < dcap v" using c sh by (simp_all add: count_def shape_iff)
      from l n have b: "bufs h (D ! dir_size v) = Some (Bs ! dir_size v)" unfolding laid_def by auto
      show ?thesis using True False v f nz E(1,2) E(3) [OF n(1)] n b
        by (simp add: pop_back_prefix_def size_vec_exec assert_valid_exec prim_defs
            adjusted_def free_extra_def)
    next
      case q: False
      show ?thesis using q False v f nz
        by (auto simp: pop_back_prefix_def size_vec_exec assert_valid_exec prim_defs adjusted_def)
    qed
  qed
qed

lemma pop_back_prefix_pos:
  "pop_back_prefix s = Ok old m \<Longrightarrow> 0 < size_of (this s)"
  unfolding pop_back_prefix_def bind_eq_Ok
  by (auto simp: assert_def split: if_splits dest!: size_vec_state prim_this
      simp: assert_valid_exec)

lemma downsize_Ok_buffers:
  assumes "downsize m = Ok u t" "big_buffer (this m)"
  shows "\<exists>t'. downsize_buffers m = Ok () t'"
  using assms unfolding downsize_def bind_eq_Ok
  by (auto dest!: size_vec_state)

lemma downsize_buffers_Ok_pre:
  assumes "downsize_buffers m = Ok u t"
  shows "last_buffer_size (this m) = 0 \<and> \<not> extra_buffer (this m)"
proof -
  have a: "assert c s = Ok x s' \<Longrightarrow> c \<and> s' = s" for c and s s' :: "'a state" and x
    by (simp add: assert_def split: if_splits)
  from assms obtain s1 s2 where "assert (0 = last_buffer_size (this m)) m = Ok () s1"
    "assert (\<not> extra_buffer (this s1)) s1 = Ok () s2"
    unfolding downsize_buffers_def by (auto simp: bind_eq_Ok)
  then show ?thesis by (auto dest!: a)
qed

text \<open>
  C6. In a state reached by public operations, let \<^verbatim>\<open>pop_back()\<close> run up to its test
  \<^verbatim>\<open>(dir_size + (extra_buffer ? 1 : 0)) * 4 <= dir_capacity()\<close>. If the test succeeds, the two
  sides are equal, \<^verbatim>\<open>downsize()\<close> returns, and if \<^verbatim>\<open>big_buffer\<close> is set then
  \<^verbatim>\<open>last_buffer_size\<close> is 0, \<^verbatim>\<open>extra_buffer\<close> is false and \<^verbatim>\<open>downsize_buffers()\<close> runs to its
  end: none of its assertions fails.
\<close>

theorem trigger_only_at_equality:
  assumes "contract cs []" and "run_vector cs = Ok () s"
    and "pop_back_prefix s = Ok old m" and "dir_capacity m = Ok c m"
    and "(dir_size (this m) + (if extra_buffer (this m) then 1 else 0)) * 4 \<le> c"
  shows "(dir_size (this m) + (if extra_buffer (this m) then 1 else 0)) * 4 = c \<and>
         (\<exists>t. downsize m = Ok () t) \<and>
         (big_buffer (this m) \<longrightarrow>
            last_buffer_size (this m) = 0 \<and> \<not> extra_buffer (this m) \<and>
            (\<exists>t. downsize_buffers m = Ok () t))"
proof -
  let ?xs = "map Some (ref_run cs [])"
  obtain h v where s: "s = (h, v)" by (cases s)
  from reach_Inv [OF assms(1,2)] have inv: "Inv s ?xs" .
  then obtain D Bs where r: "rep (h, v) D Bs" unfolding Inv_def s by auto
  have nz: "0 < size_of v" using pop_back_prefix_pos [OF assms(3)] by (simp add: s)
  have ne: "?xs \<noteq> []" using Inv_size(2) [OF inv] nz by (auto simp: s)
  have m: "m = adjusted s" using pop_back_prefix_exec [OF r nz] assms(3) by (simp add: s)
  have lbc: "0 < log_buffer_capacity (this m)" using assms(4)
    by (auto simp: dir_capacity_def assert_def split: if_splits)
  have c: "c = dcap (this m)" using assms(4) dir_capacity_exec [OF lbc] by simp
  have tr: "triggers (adjusted s)" using assms(5) by (simp add: triggers_def m c)
  from pop_back_decompose [OF inv ne] tr obtain s' where
    sp: "spec_pop_back s = Ok () s'"
    and eq: "(dir_size (this m) + (if extra_buffer (this m) then 1 else 0)) * 4 = c"
    by (auto simp: m c)
  have d: "downsize m = Ok () s'" using sp tr by (simp add: spec_pop_back_def m)
  have "last_buffer_size (this m) = 0 \<and> \<not> extra_buffer (this m) \<and>
        (\<exists>t. downsize_buffers m = Ok () t)" if "big_buffer (this m)"
  proof -
    from downsize_Ok_buffers [OF d that] obtain t where t: "downsize_buffers m = Ok () t" ..
    from downsize_buffers_Ok_pre [OF t] t show ?thesis by blast
  qed
  with eq d show ?thesis by blast
qed

lemma dir_capacity_state: "dir_capacity s = Ok c t \<Longrightarrow> t = s"
  by (auto simp: dir_capacity_def assert_def split: if_splits)

theorem trigger_only_at_equality_witness:
  "contract (map Push [0..<(16::nat)] @ replicate 15 Pop) [] \<and>
   (\<exists>s old m c. run_vector (map Push [0..<(16::nat)] @ replicate 15 Pop) = Ok () s \<and>
      pop_back_prefix s = Ok old m \<and> dir_capacity m = Ok c m \<and>
      (dir_size (this m) + (if extra_buffer (this m) then 1 else 0)) * 4 \<le> c \<and>
      big_buffer (this m) \<and>
      (dir_size (this m) + (if extra_buffer (this m) then 1 else 0)) * 4 = c \<and>
      (\<exists>t. downsize m = Ok () t) \<and>
      last_buffer_size (this m) = 0 \<and> \<not> extra_buffer (this m) \<and>
      (\<exists>t. downsize_buffers m = Ok () t))"
proof -
  let ?cs = "map Push [0..<(16::nat)] @ replicate 15 Pop"
  have c: "contract ?cs []" by code_simp
  have e: "case run_vector ?cs of
             Ok _ s \<Rightarrow>
               (case pop_back_prefix s of
                  Ok old m \<Rightarrow>
                    (case dir_capacity m of
                       Ok c m' \<Rightarrow>
                         (dir_size (this m) + (if extra_buffer (this m) then 1 else 0)) * 4 \<le> c \<and>
                         big_buffer (this m)
                     | Abort _ _ \<Rightarrow> False)
                | Abort _ _ \<Rightarrow> False)
           | Abort _ _ \<Rightarrow> False"
    by code_simp
  obtain s where s: "run_vector ?cs = Ok () s"
    using Inv_run_vector [OF c] by blast
  from e s obtain old m c m' where p: "pop_back_prefix s = Ok old m" and d: "dir_capacity m = Ok c m'"
    and le: "(dir_size (this m) + (if extra_buffer (this m) then 1 else 0)) * 4 \<le> c"
    and big: "big_buffer (this m)"
    by (auto split: outcome.splits)
  from dir_capacity_state [OF d] d have d': "dir_capacity m = Ok c m" by simp
  note t = trigger_only_at_equality [OF c s p d' le]
  from t have t1: "(dir_size (this m) + (if extra_buffer (this m) then 1 else 0)) * 4 = c"
    by (rule conjunct1)
  from t have t2: "\<exists>t. downsize m = Ok () t" by blast
  from t big have t3: "last_buffer_size (this m) = 0" "\<not> extra_buffer (this m)"
    "\<exists>t. downsize_buffers m = Ok () t" by blast+
  from c s p d' le big t1 t2 t3 show ?thesis by blast
qed

text \<open>
  An object is well formed when \<^verbatim>\<open>assert_valid()\<close> holds of its fields and the store holds
  its directory and buffers: \<open>D\<close> lists the addresses of the buffers in directory order and
  \<open>Bs\<close> their contents.
\<close>

definition well_formed :: "'a state \<Rightarrow> addr list \<Rightarrow> 'a option list list \<Rightarrow> bool" where
  "well_formed s D Bs \<longleftrightarrow>
     valid (this s) \<and> length D = count (this s) \<and>
     laid (heap s) (dir (this s)) (dcap (this s)) (buffer_capacity (this s)) D Bs"

lemma rep_well_formed: "rep s D Bs \<Longrightarrow> well_formed s D Bs"
  by (simp add: rep_def well_formed_def shape_def)

lemma pget_wf:
  assumes r: "well_formed s D Bs" and i: "i < size_of (this s)"
  shows "pget i s = Ok (D ! (i div buffer_capacity (this s)), i mod buffer_capacity (this s)) s"
proof -
  let ?v = "this s" and ?n = "buffer_capacity (this s)"
  from r have l: "laid (heap s) (dir ?v) (dcap ?v) ?n D Bs"
    and v: "valid ?v" and c: "length D = count ?v"
    by (simp_all add: well_formed_def)
  have n: "0 < ?n" by (simp add: buffer_capacity_pow)
  from v have ds: "0 < dir_size ?v" and lb: "last_buffer_size ?v < ?n" by (simp_all add: valid_def)
  have "size_of ?v < (dir_size ?v - 1) * ?n + ?n" using lb by (simp add: size_of_def)
  also have "\<dots> = dir_size ?v * ?n" using ds by (cases "dir_size ?v") simp_all
  finally have "i < dir_size ?v * ?n" using i by simp
  then have big: "i div ?n < dir_size ?v" by (simp add: less_mult_imp_div_less)
  then have "i div ?n < length D" using c by (simp add: count_def)
  with l obtain E where E: "dirs (heap s) (dir ?v) = Some E" "i div ?n < length E"
      "E ! (i div ?n) = Some (D ! (i div ?n))"
    unfolding laid_def by force
  have little: "i mod ?n < ?n" using n by simp
  have b1: "drop_bit (log_buffer_capacity ?v) i = i div ?n"
    and b2: "i AND (?n - Suc 0) = i mod ?n"
    and b3: "\<And>x::nat. push_bit (log_buffer_capacity ?v) x = x * ?n"
    by (simp_all add: drop_bit_eq_div buffer_capacity_pow AND_mask_mod push_bit_eq_mult)
  show ?thesis
    using v ds i big little E
    by (simp add: pget_def assert_valid_exec size_vec_exec Let_def assert_def b1 b2 b3
        dir_get_def dir_at_def)
qed

lemma index_get_wf:
  assumes r: "well_formed s D Bs" and i: "i < size_of (this s)"
  shows "index_get i s = Ok (elems (this s) Bs ! i) s"
proof -
  let ?v = "this s" and ?n = "buffer_capacity (this s)"
  from r have l: "laid (heap s) (dir ?v) (dcap ?v) ?n D Bs"
    and v: "valid ?v" and c: "length D = count ?v"
    by (simp_all add: well_formed_def)
  have n: "0 < ?n" by (simp add: buffer_capacity_pow)
  from v have ds: "0 < dir_size ?v" and lb: "last_buffer_size ?v < ?n" by (simp_all add: valid_def)
  have "size_of ?v < (dir_size ?v - 1) * ?n + ?n" using lb by (simp add: size_of_def)
  also have "\<dots> = dir_size ?v * ?n" using ds by (cases "dir_size ?v") simp_all
  finally have "i < dir_size ?v * ?n" using i by simp
  then have big: "i div ?n < dir_size ?v" by (simp add: less_mult_imp_div_less)
  then have k: "i div ?n < length D" using c by (simp add: count_def)
  with l have B: "bufs (heap s) (D ! (i div ?n)) = Some (Bs ! (i div ?n))"
      "length (Bs ! (i div ?n)) = ?n" and lB: "length Bs = length D"
    unfolding laid_def by auto
  have little: "i mod ?n < ?n" using n by simp
  have "dir_size ?v \<le> length Bs" using c lB by (simp add: count_def)
  from elems_nth [OF laid_uniform [OF l] ds this _ i] lb
  have "elems ?v Bs ! i = Bs ! (i div ?n) ! (i mod ?n)" by simp
  then show ?thesis
    using B little by (simp add: index_get_def pget_wf [OF r i] buf_get_def)
qed

lemma downsize_buffers_wf:
  assumes wf: "well_formed (h, v) D Bs"
    and lbs: "last_buffer_size v = 0" and ne: "\<not> extra_buffer v" and big: "big_buffer v"
    and room: "dir_size v * 2 < dcap v"
  defines "n1 \<equiv> dir_size v - 1"
  defines "bc \<equiv> buffer_capacity v"
  defines "v' \<equiv> v\<lparr>dir_size := 2 * dir_size v - 1,
                    log_buffer_capacity := log_buffer_capacity v - 1, big_buffer := False\<rparr>"
  defines "D' \<equiv> map (new_at (brk h) n1) [0..<2 * n1] @ [brk h + 2 * n1]"
  defines "Bs' \<equiv> map (\<lambda>m. half bc (m mod 2) (Bs ! (m div 2))) [0..<2 * n1] @ [replicate (bc div 2) None]"
  shows "\<exists>h'. downsize_buffers (h, v) = Ok () (h', v') \<and> well_formed (h', v') D' Bs'"
    and "buffer_capacity v' = bc div 2" and "buffer_capacity v' * 2 = bc"
    and "elems v' Bs' = elems v Bs" and "size_of v' = size_of v"
proof -
  from wf have l: "laid h (dir v) (dcap v) (buffer_capacity v) D Bs"
    and va: "valid v" and c: "length D = dir_size v"
    using ne by (simp_all add: well_formed_def count_def)
  from va have pos: "0 < dir_size v" and lbc: "0 < log_buffer_capacity v"
    and up: "dcap v \<le> dir_size v * 4" and d0: "0 \<noteq> dir v"
    using ne by (simp_all add: valid_def count_def)
  obtain k where k: "dir_size v = Suc k" using pos by (cases "dir_size v") auto
  have dc: "dcap v = 2 ^ (log_buffer_capacity v - 1)" using big by (simp add: dcap_def)
  have "2 < dcap v" using room pos by simp
  then have "2 ^ 1 < (2::nat) ^ (log_buffer_capacity v - 1)" unfolding dc by simp
  then have "1 < log_buffer_capacity v - 1" by (simp only: power_strict_increasing_iff)
  then have "log_buffer_capacity v = Suc (Suc (Suc (log_buffer_capacity v - 3)))" by simp
  then obtain q where q: "log_buffer_capacity v = Suc (Suc (Suc q))" ..
  have bcq: "bc = 2 * 2 ^ Suc (Suc q)" by (simp add: bc_def buffer_capacity_pow q)
  show b': "buffer_capacity v' = bc div 2" by (simp add: v'_def buffer_capacity_pow q bcq)
  then show "buffer_capacity v' * 2 = bc" by (simp add: bcq)
  have dc': "dcap v' = dcap v" by (simp add: dcap_def v'_def big q)
  have va': "valid v'"
    unfolding valid_def using d0 up room k lbs ne
    by (simp add: dc' b' bcq count_def) (simp add: v'_def q)
  from downsize_buffers_spec [OF l c big ne lbs room pos] obtain h' where
    h': "downsize_buffers (h, v) = Ok () (h', v')"
      "laid h' (dir v') (dcap v') (buffer_capacity v') D' Bs'"
    unfolding v'_def n1_def D'_def Bs'_def bc_def by blast
  have "length D' = count v'" using ne by (simp add: D'_def count_def v'_def n1_def k)
  with h' va' show "\<exists>h'. downsize_buffers (h, v) = Ok () (h', v') \<and> well_formed (h', v') D' Bs'"
    by (auto simp: well_formed_def)
  have lB: "length Bs = length D" and u: "\<forall>B\<in>set Bs. length B = bc"
    using l laid_uniform [OF l] by (simp_all add: laid_def bc_def)
  have n1: "n1 \<le> length Bs" by (simp add: n1_def lB c)
  have "elems v' Bs' = concat (map (\<lambda>m. half bc (m mod 2) (Bs ! (m div 2))) [0..<2 * n1])"
    by (simp add: elems_def v'_def lbs Bs'_def n1_def k)
  also have "\<dots> = concat (take n1 Bs)" by (rule concat_halves [OF n1 u])
  also have "\<dots> = elems v Bs" by (simp add: elems_def lbs n1_def)
  finally show "elems v' Bs' = elems v Bs" .
  show "size_of v' = size_of v"
    using lbs by (simp add: size_of_def v'_def k q buffer_capacity_pow)
qed

text \<open>
  C5. On a well-formed object with \<^verbatim>\<open>last_buffer_size == 0\<close>, \<^verbatim>\<open>extra_buffer == false\<close>,
  \<^verbatim>\<open>big_buffer\<close> set and, as the function asserts too, \<^verbatim>\<open>dir_size * 2 < dir_capacity()\<close>,
  \<^verbatim>\<open>downsize_buffers()\<close> returns: every buffer before the last is split into two buffers of
  half the capacity, at twice its position and the position after, the empty last buffer is
  replaced by a fresh one at the end; \<^verbatim>\<open>log_buffer_capacity\<close> is decremented, \<^verbatim>\<open>big_buffer\<close>
  is false, \<^verbatim>\<open>dir_size\<close> is twice the old value minus 1, \<^verbatim>\<open>size()\<close> is unchanged and
  \<^verbatim>\<open>operator[]\<close> returns at every index what it returned before.
\<close>

theorem downsize_buffers_splits:
  assumes "well_formed s D Bs"
    and "last_buffer_size (this s) = 0" and "\<not> extra_buffer (this s)" and "big_buffer (this s)"
    and "dir_capacity s = Ok c s" and "dir_size (this s) * 2 < c"
  shows "\<exists>s' D' Bs'. downsize_buffers s = Ok () s' \<and> well_formed s' D' Bs' \<and>
     log_buffer_capacity (this s') = log_buffer_capacity (this s) - 1 \<and>
     buffer_capacity (this s') * 2 = buffer_capacity (this s) \<and>
     \<not> big_buffer (this s') \<and> dir_size (this s') = 2 * dir_size (this s) - 1 \<and>
     last_buffer_size (this s') = 0 \<and> \<not> extra_buffer (this s') \<and>
     (\<forall>k<dir_size (this s) - 1.
         Bs' ! (2 * k) = take (buffer_capacity (this s')) (Bs ! k) \<and>
         Bs' ! (2 * k + 1) = drop (buffer_capacity (this s')) (Bs ! k)) \<and>
     brk (heap s) \<le> D' ! (dir_size (this s') - 1) \<and>
     Bs' ! (dir_size (this s') - 1) = replicate (buffer_capacity (this s')) None \<and>
     (\<exists>n. size_vec s = Ok n s \<and> size_vec s' = Ok n s' \<and>
          (\<forall>i<n. \<exists>x. index_get i s = Ok x s \<and> index_get i s' = Ok x s'))"
proof -
  obtain h v where s: "s = (h, v)" by (cases s)
  let ?n1 = "dir_size v - 1" and ?bc = "buffer_capacity v"
  let ?v' = "v\<lparr>dir_size := 2 * dir_size v - 1,
               log_buffer_capacity := log_buffer_capacity v - 1, big_buffer := False\<rparr>"
  let ?D' = "map (new_at (brk h) ?n1) [0..<2 * ?n1] @ [brk h + 2 * ?n1]"
  let ?Bs' = "map (\<lambda>m. half ?bc (m mod 2) (Bs ! (m div 2))) [0..<2 * ?n1] @ [replicate (?bc div 2) None]"
  have wf: "well_formed (h, v) D Bs" and lbs: "last_buffer_size v = 0"
    and ne: "\<not> extra_buffer v" and big: "big_buffer v"
    using assms(1-4) by (simp_all add: s)
  have va: "valid v" using wf by (simp add: well_formed_def)
  then have lbc: "0 < log_buffer_capacity (this s)" and pos: "0 < dir_size v"
    by (simp_all add: valid_def s)
  have "c = dcap v" using assms(5) dir_capacity_exec [OF lbc] by (simp add: s)
  with assms(6) have room: "dir_size v * 2 < dcap v" by (simp add: s)
  note w = downsize_buffers_wf [OF wf lbs ne big room]
  from w(1) obtain h' where h': "downsize_buffers (h, v) = Ok () (h', ?v')"
    and wf': "well_formed (h', ?v') ?D' ?Bs'" by blast
  define s' where "s' = (h', ?v')"
  have b': "buffer_capacity ?v' = ?bc div 2" by (rule w(2))
  have k2: "dir_size ?v' - 1 = 2 * ?n1" using pos by simp
  have c1: "downsize_buffers s = Ok () s'" using h' by (simp add: s s'_def)
  have c2: "well_formed s' ?D' ?Bs'" using wf' by (simp add: s'_def)
  have c3: "log_buffer_capacity (this s') = log_buffer_capacity (this s) - 1"
    by (simp add: s s'_def)
  have c4: "buffer_capacity (this s') * 2 = buffer_capacity (this s)"
    using w(3) by (simp add: s s'_def)
  have c5: "\<not> big_buffer (this s')" by (simp add: s'_def)
  have c6: "dir_size (this s') = 2 * dir_size (this s) - 1" by (simp add: s s'_def)
  have c7: "last_buffer_size (this s') = 0" using lbs by (simp add: s'_def)
  have c8: "\<not> extra_buffer (this s')" using ne by (simp add: s'_def)
  have c9: "\<forall>k<dir_size (this s) - 1.
         ?Bs' ! (2 * k) = take (buffer_capacity (this s')) (Bs ! k) \<and>
         ?Bs' ! (2 * k + 1) = drop (buffer_capacity (this s')) (Bs ! k)"
    using b' by (simp add: s s'_def nth_append half_def)
  have c10: "brk (heap s) \<le> ?D' ! (dir_size (this s') - 1)"
    using k2 by (simp add: s s'_def nth_append)
  have c11: "?Bs' ! (dir_size (this s') - 1) = replicate (buffer_capacity (this s')) None"
    using k2 b' by (simp add: s s'_def nth_append)
  have pos': "0 < dir_size (this s')" using pos by (simp add: s'_def)
  have sz: "size_vec s = Ok (size_of v) s"
    using size_vec_exec [of s] pos by (simp add: s)
  have sz': "size_vec s' = Ok (size_of v) s'"
    using size_vec_exec [OF pos'] w(5) by (simp add: s'_def)
  have ix: "\<exists>x. index_get i s = Ok x s \<and> index_get i s' = Ok x s'"
    if "i < size_of v" for i
  proof -
    have "index_get i s = Ok (elems v Bs ! i) s"
      using index_get_wf [OF wf] that by (simp add: s)
    moreover have "index_get i s' = Ok (elems ?v' ?Bs' ! i) s'"
      using index_get_wf [OF wf'] that w(5) by (simp add: s'_def)
    ultimately show ?thesis using w(4) by simp
  qed
  have c12: "\<exists>n. size_vec s = Ok n s \<and> size_vec s' = Ok n s' \<and>
          (\<forall>i<n. \<exists>x. index_get i s = Ok x s \<and> index_get i s' = Ok x s')"
    using sz sz' ix by blast
  from c1 c2 c3 c4 c5 c6 c7 c8 c9 c10 c11 c12 show ?thesis by blast
qed

text \<open>
  A store whose directory of capacity 8 holds one full buffer of 16 elements and one empty
  buffer: what \<^verbatim>\<open>pop_back()\<close> hands to \<^verbatim>\<open>downsize()\<close> when 17 elements are left of 64.
\<close>

definition sparse_state :: "nat state" where
  "sparse_state =
     (\<lparr>bufs = [2 \<mapsto> map Some [0..<16], 3 \<mapsto> replicate 16 None],
       dirs = [1 \<mapsto> [Some 2, Some 3, None, None, None, None, None, None]],
       brk = 4\<rparr>,
      \<lparr>dir = 1, dir_size = 2, last_buffer_size = 0, log_buffer_capacity = 4,
       big_buffer = True, extra_buffer = False\<rparr>)"

theorem downsize_buffers_splits_witness:
  "well_formed sparse_state [2, 3] [map Some [0..<16], replicate 16 None] \<and>
   last_buffer_size (this sparse_state) = 0 \<and> \<not> extra_buffer (this sparse_state) \<and>
   big_buffer (this sparse_state) \<and>
   dir_capacity sparse_state = Ok 8 sparse_state \<and> dir_size (this sparse_state) * 2 < 8 \<and>
   (\<exists>s' Bs'. downsize_buffers sparse_state = Ok () s' \<and> dir_size (this s') = 3 \<and>
       buffer_capacity (this s') = 8 \<and>
       Bs' ! 0 = map Some [0..<8] \<and> Bs' ! 1 = map Some [8..<16] \<and>
       index_get 5 s' = Ok (Some 5) s')"
proof -
  let ?Bs = "[map Some [0..<16], replicate 16 None] :: nat option list list"
  have wf: "well_formed sparse_state [2, 3] ?Bs"
    by (auto simp: well_formed_def valid_def laid_def count_def dcap_def buffer_capacity_def
        sparse_state_def less_Suc_eq)
  have f: "last_buffer_size (this sparse_state) = 0" "\<not> extra_buffer (this sparse_state)"
    "big_buffer (this sparse_state)" "dir_size (this sparse_state) = 2"
    "buffer_capacity (this sparse_state) = 16"
    by (simp_all add: sparse_state_def buffer_capacity_def)
  have dc: "dir_capacity sparse_state = Ok 8 sparse_state"
    by (simp add: dir_capacity_def assert_def sparse_state_def)
  have room: "dir_size (this sparse_state) * 2 < 8" by (simp add: f)
  have sz: "size_vec sparse_state = Ok 16 sparse_state"
    by (simp add: size_vec_def assert_def sparse_state_def)
  have ig: "index_get 5 sparse_state = Ok (Some 5) sparse_state"
    using index_get_wf [OF wf, of 5] by (simp add: size_of_def f elems_def)
  from downsize_buffers_splits [OF wf f(1,2,3) dc room] obtain s' D' Bs' n where
    r: "downsize_buffers sparse_state = Ok () s'"
      "buffer_capacity (this s') * 2 = buffer_capacity (this sparse_state)"
      "dir_size (this s') = 2 * dir_size (this sparse_state) - 1"
      "\<forall>k<dir_size (this sparse_state) - 1.
         Bs' ! (2 * k) = take (buffer_capacity (this s')) (?Bs ! k) \<and>
         Bs' ! (2 * k + 1) = drop (buffer_capacity (this s')) (?Bs ! k)"
      "size_vec sparse_state = Ok n sparse_state"
      "\<forall>i<n. \<exists>x. index_get i sparse_state = Ok x sparse_state \<and> index_get i s' = Ok x s'"
    by blast
  from r(2) have b: "buffer_capacity (this s') = 8" by (simp add: f)
  from r(3) have d: "dir_size (this s') = 3" by (simp add: f)
  from r(4) [rule_format, of 0] have h: "Bs' ! 0 = map Some [0..<8]" "Bs' ! 1 = map Some [8..<16]"
    by (simp_all add: f b take_map drop_map)
  from r(5) sz have "n = 16" by simp
  with r(6) [rule_format, of 5] ig have "index_get 5 s' = Ok (Some 5) s'" by simp
  with wf f(1,2,3) dc room r(1) d b h show ?thesis by blast
qed

text \<open>
  After four calls of \<^verbatim>\<open>push_back\<close> on a new vector the object is well formed,
  \<^verbatim>\<open>last_buffer_size\<close> is 0, \<^verbatim>\<open>extra_buffer\<close> is false and \<^verbatim>\<open>big_buffer\<close> is set, but the
  directory has no room for the split: \<^verbatim>\<open>downsize_buffers()\<close> stops at its assertion
  \<^verbatim>\<open>dir_size * 2 < dir_capacity()\<close>.
\<close>

definition four_pushed :: "nat state" where
  "four_pushed = (case run_vector (map Push [0..<4]) of Ok _ s \<Rightarrow> s | Abort _ s \<Rightarrow> s)"

theorem downsize_buffers_needs_room:
  "run_vector (map Push [0..<4]) = Ok () four_pushed \<and>
   (\<exists>D Bs. well_formed four_pushed D Bs) \<and>
   last_buffer_size (this four_pushed) = 0 \<and> \<not> extra_buffer (this four_pushed) \<and>
   big_buffer (this four_pushed) \<and>
   downsize_buffers four_pushed = Abort Assertion four_pushed"
proof -
  let ?cs = "map Push [0..<4] :: nat op list"
  have c: "contract ?cs []" by code_simp
  obtain s where s: "run_vector ?cs = Ok () s" and inv: "Inv s (map Some (ref_run ?cs []))"
    using Inv_run_vector [OF c] by blast
  have e: "four_pushed = s" by (simp add: four_pushed_def s)
  from inv have wf: "\<exists>D Bs. well_formed four_pushed D Bs"
    unfolding Inv_def e by (blast intro: rep_well_formed)
  have f: "last_buffer_size (this four_pushed) = 0" "\<not> extra_buffer (this four_pushed)"
    "big_buffer (this four_pushed)" "dir_size (this four_pushed) = 2"
    "log_buffer_capacity (this four_pushed) = 2"
    by code_simp+
  have "downsize_buffers four_pushed = Abort Assertion four_pushed"
    by (simp add: downsize_buffers_def assert_def dir_capacity_def buffer_capacity_def f)
  with s e wf f(1,2,3) show ?thesis by simp
qed

section \<open>Copying: \<^verbatim>\<open>construct\<close>, the copy constructor and \<^verbatim>\<open>operator=\<close>\<close>

text \<open>
  The parameter \<^verbatim>\<open>const vector & that\<close> is a reference. It denotes either the object the
  member function runs on, whose fields are then the current fields of \<^verbatim>\<open>*this\<close>, or another
  object, whose fields do not change during the call. The store is shared in both cases.
\<close>

datatype that_ref = This | Object vector

definition that_fields :: "that_ref \<Rightarrow> 'a state \<Rightarrow> vector" where
  "that_fields that s = (case that of This \<Rightarrow> this s | Object v \<Rightarrow> v)"

text \<open>
  The body of the loop of \<^verbatim>\<open>construct\<close>. \<^verbatim>\<open>std::copy\<close> reads \<^verbatim>\<open>that.dir[i]\<close> after
  \<^verbatim>\<open>dir[i]\<close> has been assigned. A range copied onto itself is left as it is.
\<close>

definition construct_body :: "that_ref \<Rightarrow> nat \<Rightarrow> 'a state \<Rightarrow> (unit, 'a state) outcome" where
  "construct_body that i s =
     bind (new_buf (buffer_capacity (this s)) s) (\<lambda>a s.
     bind (dir_set i a s) (\<lambda>_ s.
     bind (dir_at (dir (that_fields that s)) i s) (\<lambda>src s.
     bind (dir_get i s) (\<lambda>dst s.
       copy_cells src 0 (buffer_capacity (that_fields that s)) dst 0 s))))"

lemma construct_body_this:
  "construct_body that i s = Ok u t \<Longrightarrow> this t = this s"
  unfolding construct_body_def bind_eq_Ok
  by (auto dest!: prim_this)

function construct_loop :: "that_ref \<Rightarrow> nat \<Rightarrow> 'a state \<Rightarrow> (unit, 'a state) outcome" where
  "construct_loop that i s =
     (if i < dir_size (this s) then
        (case construct_body that i s of
           Ok _ t \<Rightarrow> construct_loop that (i + 1) t
         | Abort e t \<Rightarrow> Abort e t)
      else Ok () s)"
  by pat_completeness auto
termination
  by (relation "measure (\<lambda>(that, i, s). dir_size (this s) - i)")
     (auto dest: construct_body_this)

declare construct_loop.simps [simp del]

definition construct :: "that_ref \<Rightarrow> 'a state \<Rightarrow> (unit, 'a state) outcome" where
  "construct that s =
     bind (assert_valid s) (\<lambda>_ s.
     bind (construct_loop that 0 s) (\<lambda>_ s.
     bind (if extra_buffer (this s) then
             bind (new_buf (buffer_capacity (this s)) s) (\<lambda>a s.
               dir_set (dir_size (this s)) a s)
           else Ok () s) (\<lambda>_ s.
       assert_valid s)))"

text \<open>
  The copy constructor builds a new object in the store from the fields of \<^verbatim>\<open>that\<close>; the
  member initialisers run in declaration order, \<^verbatim>\<open>dir(new T*[that.dir_capacity()])\<close> first.
\<close>

definition vector_copy :: "vector \<Rightarrow> 'a heap \<Rightarrow> (unit, 'a state) outcome" where
  "vector_copy that h =
     bind (dir_capacity (h, that)) (\<lambda>c _.
       let s = (snd (alloc_dir c h),
                \<lparr>dir = fst (alloc_dir c h), dir_size = dir_size that,
                 last_buffer_size = last_buffer_size that,
                 log_buffer_capacity = log_buffer_capacity that,
                 big_buffer = big_buffer that, extra_buffer = extra_buffer that\<rparr>)
       in construct (Object that) s)"

text \<open>\<^verbatim>\<open>operator=\<close>. There is no test for \<^verbatim>\<open>this == &that\<close> in the source.\<close>

definition assign :: "that_ref \<Rightarrow> 'a state \<Rightarrow> (unit, 'a state) outcome" where
  "assign that s =
     bind (destuct s) (\<lambda>_ s.
     bind (dir_capacity (heap s, that_fields that s)) (\<lambda>c _.
     bind (new_dir c s) (\<lambda>d s.
     bind (modify (\<lambda>v. v\<lparr>dir := d\<rparr>) s) (\<lambda>_ s.
     bind (modify (\<lambda>v. v\<lparr>dir_size := dir_size (that_fields that s)\<rparr>) s) (\<lambda>_ s.
     bind (modify (\<lambda>v. v\<lparr>last_buffer_size := last_buffer_size (that_fields that s)\<rparr>) s) (\<lambda>_ s.
     bind (modify (\<lambda>v. v\<lparr>log_buffer_capacity := log_buffer_capacity (that_fields that s)\<rparr>) s) (\<lambda>_ s.
     bind (modify (\<lambda>v. v\<lparr>big_buffer := big_buffer (that_fields that s)\<rparr>) s) (\<lambda>_ s.
     bind (modify (\<lambda>v. v\<lparr>extra_buffer := extra_buffer (that_fields that s)\<rparr>) s) (\<lambda>_ s.
       construct that s)))))))))"

section \<open>Several objects in one store\<close>

text \<open>
  A program state is the store and the objects declared so far. A step declares a new
  object, default constructed or copy constructed from object \<open>j\<close>, assigns object \<open>j\<close> to
  object \<open>k\<close>, or calls a mutator of object \<open>k\<close>.
\<close>

type_synonym 'a world = "'a heap \<times> vector list"

datatype 'a wop = New | Copy nat | Assign nat nat | On nat "'a op"

definition add_object :: "('a heap \<Rightarrow> (unit, 'a state) outcome) \<Rightarrow> 'a world \<Rightarrow> (unit, 'a world) outcome" where
  "add_object m w =
     (case m (fst w) of
        Ok _ s \<Rightarrow> Ok () (heap s, snd w @ [this s])
      | Abort e s \<Rightarrow> Abort e (heap s, snd w))"

definition on_object :: "nat \<Rightarrow> ('a state \<Rightarrow> (unit, 'a state) outcome) \<Rightarrow> 'a world \<Rightarrow> (unit, 'a world) outcome" where
  "on_object k m w =
     (if k < length (snd w) then
        (case m (fst w, snd w ! k) of
           Ok _ s \<Rightarrow> Ok () (heap s, (snd w)[k := this s])
         | Abort e s \<Rightarrow> Abort e (heap s, (snd w)[k := this s]))
      else Abort Undefined w)"

fun wexec :: "'a wop \<Rightarrow> 'a world \<Rightarrow> (unit, 'a world) outcome" where
  "wexec New w = add_object vector_ctor w"
| "wexec (Copy j) w =
     (if j < length (snd w) then add_object (vector_copy (snd w ! j)) w else Abort Undefined w)"
| "wexec (Assign k j) w =
     (if j < length (snd w) then
        on_object k (assign (if j = k then This else Object (snd w ! j))) w
      else Abort Undefined w)"
| "wexec (On k c) w = on_object k (exec c) w"

fun wrun :: "'a wop list \<Rightarrow> 'a world \<Rightarrow> (unit, 'a world) outcome" where
  "wrun [] w = Ok () w"
| "wrun (c # cs) w = bind (wexec c w) (\<lambda>_ w. wrun cs w)"

definition empty_world :: "'a world" where
  "empty_world = (empty_heap, [])"

text \<open>
  What a program may do: name declared objects only, call \<^verbatim>\<open>pop_back\<close> on a non-empty
  object and index below the size. \<open>sizes\<close> lists the sizes of the objects.
\<close>

fun op_permitted :: "'a op \<Rightarrow> nat \<Rightarrow> bool" where
  "op_permitted (Push x) n = True"
| "op_permitted Pop n = (0 < n)"
| "op_permitted (Put i x) n = (i < n)"

fun op_size :: "'a op \<Rightarrow> nat \<Rightarrow> nat" where
  "op_size (Push x) n = n + 1"
| "op_size Pop n = n - 1"
| "op_size (Put i x) n = n"

fun wpermitted :: "'a wop \<Rightarrow> nat list \<Rightarrow> bool" where
  "wpermitted New ns = True"
| "wpermitted (Copy j) ns = (j < length ns)"
| "wpermitted (Assign k j) ns = (k < length ns \<and> j < length ns)"
| "wpermitted (On k c) ns = (k < length ns \<and> op_permitted c (ns ! k))"

fun wsizes :: "'a wop \<Rightarrow> nat list \<Rightarrow> nat list" where
  "wsizes New ns = ns @ [0]"
| "wsizes (Copy j) ns = ns @ [ns ! j]"
| "wsizes (Assign k j) ns = ns[k := ns ! j]"
| "wsizes (On k c) ns = ns[k := op_size c (ns ! k)]"

fun wcontract :: "'a wop list \<Rightarrow> nat list \<Rightarrow> bool" where
  "wcontract [] ns = True"
| "wcontract (c # cs) ns = (wpermitted c ns \<and> wcontract cs (wsizes c ns))"

section \<open>Objects that share the store\<close>

text \<open>An object whose directory and buffers lie outside the changed part keeps its layout.\<close>

lemma laid_frame:
  assumes l: "laid h d cap bc D Bs" and f: "frame h A h' A'" and dj: "insert d (set D) \<inter> A = {}"
  shows "laid h' d cap bc D Bs"
proof -
  from f have b: "brk h \<le> brk h'"
    and keep: "\<And>a. a < brk h \<Longrightarrow> a \<notin> A \<Longrightarrow> bufs h' a = bufs h a \<and> dirs h' a = dirs h a"
    unfolding frame_def by auto
  from l have d: "0 < d" "d < brk h" and len: "length D \<le> cap" "length Bs = length D" "distinct D"
    and E: "\<exists>E. dirs h d = Some E \<and> length E = cap \<and> (\<forall>k<length D. E ! k = Some (D ! k))"
    and Dk: "\<And>k. k < length D \<Longrightarrow> D ! k < brk h \<and> bufs h (D ! k) = Some (Bs ! k) \<and> length (Bs ! k) = bc"
    unfolding laid_def by auto
  have dA: "d \<notin> A" using dj by auto
  have DA: "D ! k \<notin> A" if "k < length D" for k using dj that by (auto simp: disjoint_iff)
  have "dirs h' d = dirs h d" using keep [OF d(2) dA] by simp
  moreover have "D ! k < brk h' \<and> bufs h' (D ! k) = Some (Bs ! k) \<and> length (Bs ! k) = bc"
    if "k < length D" for k
    using Dk [OF that] keep [OF _ DA [OF that]] b by auto
  ultimately show ?thesis unfolding laid_def using d b len E by auto
qed

lemma rep_frame:
  assumes "rep (h, v) D Bs" "frame h A h' A'" "insert (dir v) (set D) \<inter> A = {}"
  shows "rep (h', v) D Bs"
  using assms laid_frame [of h "dir v" "dcap v" "buffer_capacity v" D Bs A h' A']
  by (simp add: rep_def)

lemma laid_below:
  assumes "laid h d cap bc D Bs"
  shows "\<forall>a\<in>insert d (set D). a < brk h"
  using assms unfolding laid_def by (auto simp: in_set_conv_nth)

subsection \<open>\<^verbatim>\<open>destuct\<close>\<close>

lemma destuct_body_exec:
  assumes "dirs h (dir v) = Some E" "i < length E" "E ! i = Some a" "bufs h a = Some B"
  shows "destuct_body i (h, v) = Ok () (h\<lparr>bufs := (bufs h)(a := None)\<rparr>, v)"
  using assms by (simp add: destuct_body_def prim_defs)

lemma destuct_loop_spec:
  assumes E: "dirs h (dir v) = Some E" "length D \<le> length E" "\<And>k. k < length D \<Longrightarrow> E ! k = Some (D ! k)"
    and D: "distinct D" "\<And>k. k < length D \<Longrightarrow> bufs h (D ! k) \<noteq> None"
    and n: "dir_size v \<le> length D"
  shows "i \<le> dir_size v \<Longrightarrow>
         destuct_loop i (h\<lparr>bufs := (\<lambda>a. if a \<in> set (take i D) then None else bufs h a)\<rparr>, v) =
           Ok () (h\<lparr>bufs := (\<lambda>a. if a \<in> set (take (dir_size v) D) then None else bufs h a)\<rparr>, v)"
proof (induction "dir_size v - i" arbitrary: i)
  case 0
  then have "i = dir_size v" by simp
  then show ?case by (subst destuct_loop.simps) simp
next
  case (Suc m)
  then have i: "i < dir_size v" by simp
  then have iD: "i < length D" using n by simp
  let ?F = "\<lambda>j a. if a \<in> set (take j D) then None else bufs h a"
  let ?hi = "h\<lparr>bufs := ?F i\<rparr>"
  have notin: "D ! i \<notin> set (take i D)"
    using D(1) iD by (auto simp: in_set_conv_nth nth_eq_iff_index_eq)
  from D(2) [OF iD] obtain B where B: "bufs h (D ! i) = Some B" by auto
  have b: "destuct_body i (?hi, v) = Ok () (?hi\<lparr>bufs := (bufs ?hi)(D ! i := None)\<rparr>, v)"
    by (rule destuct_body_exec [where E = E and B = B])
       (use E iD notin B in simp_all)
  have F: "(bufs ?hi)(D ! i := None) = ?F (Suc i)"
    using iD by (auto simp: take_Suc_conv_app_nth fun_eq_iff)
  have "destuct_loop (Suc i) (h\<lparr>bufs := ?F (Suc i)\<rparr>, v) =
          Ok () (h\<lparr>bufs := ?F (dir_size v)\<rparr>, v)"
    by (rule Suc.hyps(1)) (use Suc.hyps(2) i in simp_all)
  then show ?case
    using i b F by (subst destuct_loop.simps) simp
qed

definition released :: "'a heap \<Rightarrow> addr \<Rightarrow> addr list \<Rightarrow> 'a heap" where
  "released h d D =
     h\<lparr>bufs := (\<lambda>a. if a \<in> set D then None else bufs h a), dirs := (dirs h)(d := None)\<rparr>"

lemma destuct_spec:
  assumes r: "rep (h, v) D Bs"
  shows "destuct (h, v) = Ok () (released h (dir v) D, v)"
proof -
  from r have l: "laid h (dir v) (dcap v) (buffer_capacity v) D Bs"
    and sh: "shape v" and c: "length D = count v"
    by (simp_all add: rep_def)
  from l obtain E where E: "dirs h (dir v) = Some E" "length E = dcap v"
    "\<And>k. k < length D \<Longrightarrow> E ! k = Some (D ! k)"
    unfolding laid_def by auto
  from l have len: "length D \<le> dcap v" and dist: "distinct D"
    and Dk: "\<And>k. k < length D \<Longrightarrow> bufs h (D ! k) \<noteq> None"
    unfolding laid_def by auto
  have n: "dir_size v \<le> length D" using c by (simp add: count_def)
  let ?F = "\<lambda>j a. if a \<in> set (take j D) then None else bufs h a"
  have h0: "h\<lparr>bufs := ?F 0\<rparr> = h" by simp
  have loop: "destuct_loop 0 (h, v) = Ok () (h\<lparr>bufs := ?F (dir_size v)\<rparr>, v)"
    using destuct_loop_spec [OF E(1) _ E(3) dist Dk n, of 0] len E(2) by (simp add: h0)
  show ?thesis
  proof (cases "extra_buffer v")
    case False
    then have "take (dir_size v) D = D" using c by (simp add: count_def)
    then show ?thesis using loop False E(1)
      by (simp add: destuct_def prim_defs released_def)
  next
    case True
    then have ld: "length D = Suc (dir_size v)" using c by (simp add: count_def)
    then have k: "dir_size v < length D" by simp
    have notin: "D ! dir_size v \<notin> set (take (dir_size v) D)"
      using dist k by (auto simp: in_set_conv_nth nth_eq_iff_index_eq)
    from Dk [OF k] obtain B where B: "bufs h (D ! dir_size v) = Some B" by auto
    have F: "(?F (dir_size v))(D ! dir_size v := None) = (\<lambda>a. if a \<in> set D then None else bufs h a)"
    proof -
      have "D = take (dir_size v) D @ [D ! dir_size v]"
        using ld by (metis lessI take_Suc_conv_app_nth take_all order_refl)
      then have "set D = insert (D ! dir_size v) (set (take (dir_size v) D))"
        by (metis Un_insert_right append_Nil2 list.simps(15) set_append)
      then show ?thesis by (auto simp: fun_eq_iff)
    qed
    show ?thesis using loop True E(1,2) E(3) [OF k] k len notin B F
      by (simp add: destuct_def prim_defs released_def)
  qed
qed

subsection \<open>\<^verbatim>\<open>construct\<close>\<close>

lemma construct_body_object:
  assumes "dirs h (dir v) = Some L" "i < length L"
    and "dir tv \<noteq> dir v" "dirs h (dir tv) = Some E" "i < length E" "E ! i = Some a"
    and "bufs h a = Some B" "length B = buffer_capacity tv" "a < brk h"
    and "buffer_capacity v = buffer_capacity tv"
  shows "construct_body (Object tv) i (h, v) =
           Ok () (h\<lparr>bufs := (bufs h)(brk h \<mapsto> B),
                    dirs := (dirs h)(dir v \<mapsto> L[i := Some (brk h)]),
                    brk := Suc (brk h)\<rparr>, v)"
  using assms
  by (simp add: construct_body_def that_fields_def prim_defs)

lemma construct_body_self:
  assumes "dirs h (dir v) = Some L" "i < length L"
  shows "construct_body This i (h, v) =
           Ok () (h\<lparr>bufs := (bufs h)(brk h \<mapsto> replicate (buffer_capacity v) None),
                    dirs := (dirs h)(dir v \<mapsto> L[i := Some (brk h)]),
                    brk := Suc (brk h)\<rparr>, v)"
  using assms
  by (simp add: construct_body_def that_fields_def prim_defs)

text \<open>
  The loop invariant: after \<open>t\<close> rounds the directory \<open>d\<close> holds the \<open>t\<close> addresses allocated
  since the store \<open>h0\<close>, and the buffer allocated in round \<open>k\<close> holds \<open>C k\<close>.
\<close>

definition cons_inv :: "'a heap \<Rightarrow> addr \<Rightarrow> nat \<Rightarrow> (nat \<Rightarrow> 'a option list) \<Rightarrow> nat \<Rightarrow> 'a heap \<Rightarrow> bool" where
  "cons_inv h0 d cap C t h \<longleftrightarrow>
     brk h = brk h0 + t \<and>
     (\<exists>L. dirs h d = Some L \<and> length L = cap \<and> (\<forall>k<t. L ! k = Some (brk h0 + k))) \<and>
     (\<forall>a. a \<noteq> d \<longrightarrow> dirs h a = dirs h0 a) \<and>
     (\<forall>a. bufs h a =
        (if brk h0 \<le> a \<and> a < brk h0 + t then Some (C (a - brk h0)) else bufs h0 a))"

lemma cons_inv_0:
  assumes "dirs h0 d = Some L" "length L = cap"
  shows "cons_inv h0 d cap C 0 h0"
  using assms by (auto simp: cons_inv_def)

lemma cons_inv_step_object:
  assumes sd: "dir tv \<noteq> d" "dirs h0 (dir tv) = Some E"
    and src: "\<And>k. k < n \<Longrightarrow> k < length E \<and> E ! k = Some (D ! k) \<and> D ! k < brk h0 \<and>
                 bufs h0 (D ! k) = Some (Bs ! k) \<and> length (Bs ! k) = buffer_capacity tv"
    and v: "dir v = d" "buffer_capacity v = buffer_capacity tv" and n: "n \<le> cap"
    and inv: "cons_inv h0 d cap (\<lambda>k. Bs ! k) t h" and t: "t < n"
  shows "\<exists>h1. construct_body (Object tv) t (h, v) = Ok () (h1, v) \<and>
              cons_inv h0 d cap (\<lambda>k. Bs ! k) (Suc t) h1"
proof -
  from inv obtain L where bh: "brk h = brk h0 + t"
    and L: "dirs h d = Some L" "length L = cap" "\<And>k. k < t \<Longrightarrow> L ! k = Some (brk h0 + k)"
    and dirsh: "\<And>a. a \<noteq> d \<Longrightarrow> dirs h a = dirs h0 a"
    and bufh: "\<And>a. bufs h a =
        (if brk h0 \<le> a \<and> a < brk h0 + t then Some (Bs ! (a - brk h0)) else bufs h0 a)"
    unfolding cons_inv_def by auto
  note s = src [OF t]
  let ?h1 = "h\<lparr>bufs := (bufs h)(brk h \<mapsto> Bs ! t),
               dirs := (dirs h)(dir v \<mapsto> L[t := Some (brk h)]),
               brk := Suc (brk h)\<rparr>"
  have E': "dirs h (dir tv) = Some E" using dirsh [OF sd(1)] sd(2) by simp
  have B: "bufs h (D ! t) = Some (Bs ! t)" using bufh [of "D ! t"] s by simp
  have b: "construct_body (Object tv) t (h, v) = Ok () (?h1, v)"
    by (rule construct_body_object [where E = E and a = "D ! t"])
       (use L t n v sd E' s B bh in simp_all)
  have "cons_inv h0 d cap (\<lambda>k. Bs ! k) (Suc t) ?h1"
    unfolding cons_inv_def
  proof (intro conjI allI impI)
    show "brk ?h1 = brk h0 + Suc t" using bh by simp
    show "\<exists>L'. dirs ?h1 d = Some L' \<and> length L' = cap \<and> (\<forall>k<Suc t. L' ! k = Some (brk h0 + k))"
      using L v t n bh by (auto simp: nth_list_update less_Suc_eq)
    show "dirs ?h1 a = dirs h0 a" if "a \<noteq> d" for a using that dirsh v by simp
    show "bufs ?h1 a = (if brk h0 \<le> a \<and> a < brk h0 + Suc t then Some (Bs ! (a - brk h0)) else bufs h0 a)"
      for a
      using bufh [of a] bh by auto
  qed
  with b show ?thesis by blast
qed

lemma cons_inv_step_self:
  assumes v: "dir v = d" "buffer_capacity v = bc"
    and inv: "cons_inv h0 d cap (\<lambda>k. replicate bc None) t h" and t: "t < cap"
  shows "\<exists>h1. construct_body This t (h, v) = Ok () (h1, v) \<and>
              cons_inv h0 d cap (\<lambda>k. replicate bc None) (Suc t) h1"
proof -
  from inv obtain L where bh: "brk h = brk h0 + t"
    and L: "dirs h d = Some L" "length L = cap" "\<And>k. k < t \<Longrightarrow> L ! k = Some (brk h0 + k)"
    and dirsh: "\<And>a. a \<noteq> d \<Longrightarrow> dirs h a = dirs h0 a"
    and bufh: "\<And>a. bufs h a =
        (if brk h0 \<le> a \<and> a < brk h0 + t then Some (replicate bc None) else bufs h0 a)"
    unfolding cons_inv_def by auto
  let ?h1 = "h\<lparr>bufs := (bufs h)(brk h \<mapsto> replicate (buffer_capacity v) None),
               dirs := (dirs h)(dir v \<mapsto> L[t := Some (brk h)]),
               brk := Suc (brk h)\<rparr>"
  have b: "construct_body This t (h, v) = Ok () (?h1, v)"
    by (rule construct_body_self) (use L t v in simp_all)
  have "cons_inv h0 d cap (\<lambda>k. replicate bc None) (Suc t) ?h1"
    unfolding cons_inv_def
  proof (intro conjI allI impI)
    show "brk ?h1 = brk h0 + Suc t" using bh by simp
    show "\<exists>L'. dirs ?h1 d = Some L' \<and> length L' = cap \<and> (\<forall>k<Suc t. L' ! k = Some (brk h0 + k))"
      using L v t bh by (auto simp: nth_list_update less_Suc_eq)
    show "dirs ?h1 a = dirs h0 a" if "a \<noteq> d" for a using that dirsh v by simp
    show "bufs ?h1 a = (if brk h0 \<le> a \<and> a < brk h0 + Suc t then Some (replicate bc None) else bufs h0 a)"
      for a
      using bufh [of a] bh v by auto
  qed
  with b show ?thesis by blast
qed

lemma cons_inv_loop:
  assumes step: "\<And>t h. t < n \<Longrightarrow> cons_inv h0 d cap C t h \<Longrightarrow>
                   \<exists>h1. construct_body that t (h, v) = Ok () (h1, v) \<and> cons_inv h0 d cap C (Suc t) h1"
    and ds: "dir_size v = n"
  shows "cons_inv h0 d cap C t h \<Longrightarrow> t \<le> n \<Longrightarrow>
         \<exists>h'. construct_loop that t (h, v) = Ok () (h', v) \<and> cons_inv h0 d cap C n h'"
proof (induction "n - t" arbitrary: t h)
  case 0
  then have "t = n" by simp
  then show ?case using 0 ds by (subst construct_loop.simps) simp
next
  case (Suc m)
  then have t: "t < n" by simp
  from step [OF t Suc.prems(1)] obtain h1 where
    h1: "construct_body that t (h, v) = Ok () (h1, v)" "cons_inv h0 d cap C (Suc t) h1" by blast
  have "\<exists>h'. construct_loop that (Suc t) (h1, v) = Ok () (h', v) \<and> cons_inv h0 d cap C n h'"
    by (rule Suc.hyps(1)) (use Suc.hyps(2) t h1 in simp_all)
  then show ?case using t h1 ds by (subst construct_loop.simps) simp
qed

lemma shape_fields:
  assumes "shape tv" "0 < dir w" "dir_size w = dir_size tv" "last_buffer_size w = last_buffer_size tv"
    "log_buffer_capacity w = log_buffer_capacity tv" "big_buffer w = big_buffer tv"
    "extra_buffer w = extra_buffer tv"
  shows "shape w" "dcap w = dcap tv" "buffer_capacity w = buffer_capacity tv" "count w = count tv"
    "size_of w = size_of tv"
  using assms
  by (simp_all add: shape_def valid_def dcap_def count_def buffer_capacity_def size_of_def)

lemma construct_exec:
  assumes loop: "construct_loop that 0 (h, w) = Ok () (h2, w)"
    and inv: "cons_inv h d (dcap w) C (dir_size w) h2"
    and w: "valid w" "dir w = d"
  shows "\<exists>h'. construct that (h, w) = Ok () (h', w) \<and>
              cons_inv h d (dcap w) (C(dir_size w := replicate (buffer_capacity w) None)) (count w) h'"
proof -
  let ?n = "dir_size w" and ?C = "C(dir_size w := replicate (buffer_capacity w) None)"
  from inv obtain L where bh: "brk h2 = brk h + ?n"
    and L: "dirs h2 d = Some L" "length L = dcap w" "\<And>k. k < ?n \<Longrightarrow> L ! k = Some (brk h + k)"
    and dirsh: "\<And>a. a \<noteq> d \<Longrightarrow> dirs h2 a = dirs h a"
    and bufh: "\<And>a. bufs h2 a =
        (if brk h \<le> a \<and> a < brk h + ?n then Some (C (a - brk h)) else bufs h a)"
    unfolding cons_inv_def by auto
  show ?thesis
  proof (cases "extra_buffer w")
    case False
    have "cons_inv h d (dcap w) ?C (count w) h2"
      unfolding cons_inv_def using bh L dirsh bufh False by (auto simp: count_def)
    moreover have "construct that (h, w) = Ok () (h2, w)"
      using loop w False by (simp add: construct_def assert_valid_exec)
    ultimately show ?thesis by blast
  next
    case True
    then have room: "?n < dcap w" using w(1) by (simp add: valid_def)
    let ?h' = "h2\<lparr>bufs := (bufs h2)(brk h2 \<mapsto> replicate (buffer_capacity w) None),
                  dirs := (dirs h2)(d \<mapsto> L[?n := Some (brk h2)]),
                  brk := Suc (brk h2)\<rparr>"
    have c: "construct that (h, w) = Ok () (?h', w)"
      using loop w True L room by (simp add: construct_def assert_valid_exec prim_defs)
    have "cons_inv h d (dcap w) ?C (count w) ?h'"
      unfolding cons_inv_def
    proof (intro conjI allI impI)
      show "brk ?h' = brk h + count w" using bh True by (simp add: count_def)
      show "\<exists>L'. dirs ?h' d = Some L' \<and> length L' = dcap w \<and> (\<forall>k<count w. L' ! k = Some (brk h + k))"
        using L True room bh by (auto simp: count_def nth_list_update less_Suc_eq)
      show "dirs ?h' a = dirs h a" if "a \<noteq> d" for a using that dirsh by simp
      show "bufs ?h' a = (if brk h \<le> a \<and> a < brk h + count w then Some (?C (a - brk h)) else bufs h a)"
        for a
        using bufh [of a] bh True by (auto simp: count_def)
    qed
    with c show ?thesis by blast
  qed
qed

lemma cons_inv_frame:
  assumes inv: "cons_inv h d cap C n h'"
  shows "frame h {d} h' (insert d (set (map (\<lambda>k. brk h + k) [0..<n])))"
  using assms unfolding frame_def cons_inv_def by auto

lemma cons_inv_laid:
  assumes inv: "cons_inv h d cap C n h'" and d: "0 < d" "d < brk h" and n: "n \<le> cap"
    and len: "\<And>k. k < n \<Longrightarrow> length (C k) = bc"
  shows "laid h' d cap bc (map (\<lambda>k. brk h + k) [0..<n]) (map C [0..<n])"
proof -
  from inv obtain L where bh: "brk h' = brk h + n"
    and L: "dirs h' d = Some L" "length L = cap" "\<And>k. k < n \<Longrightarrow> L ! k = Some (brk h + k)"
    and dirsh: "\<And>a. a \<noteq> d \<Longrightarrow> dirs h' a = dirs h a"
    and bufh: "\<And>a. bufs h' a =
        (if brk h \<le> a \<and> a < brk h + n then Some (C (a - brk h)) else bufs h a)"
    unfolding cons_inv_def by auto
  have dist: "distinct (map (\<lambda>k. brk h + k) [0..<n])"
    by (simp add: distinct_map inj_on_def)
  show "laid h' d cap bc (map (\<lambda>k. brk h + k) [0..<n]) (map C [0..<n])"
    unfolding laid_def using d n bh L dist len bufh by auto
qed

lemma elems_cong:
  assumes "\<And>k. k < dir_size v \<Longrightarrow> Bs' ! k = Bs ! k" "dir_size v \<le> length Bs" "dir_size v \<le> length Bs'"
    "0 < dir_size v"
  shows "elems v Bs' = elems v Bs"
proof -
  have "take (dir_size v - 1) Bs' = take (dir_size v - 1) Bs"
    using assms by (intro nth_take_lemma) simp_all
  moreover have "Bs' ! (dir_size v - 1) = Bs ! (dir_size v - 1)" using assms by simp
  ultimately show ?thesis by (simp add: elems_def)
qed

lemma elems_fields:
  assumes "dir_size w = dir_size v" "last_buffer_size w = last_buffer_size v"
  shows "elems w Bs = elems v Bs"
  using assms by (simp add: elems_def)

lemma construct_object_spec:
  assumes src: "rep (h, tv) D Bs"
    and w: "dir w = d" "dir_size w = dir_size tv" "last_buffer_size w = last_buffer_size tv"
      "log_buffer_capacity w = log_buffer_capacity tv" "big_buffer w = big_buffer tv"
      "extra_buffer w = extra_buffer tv"
    and d: "0 < d" "d < brk h" "d \<noteq> dir tv" "dirs h d = Some L" "length L = dcap tv"
  shows "\<exists>h' D' Bs'. construct (Object tv) (h, w) = Ok () (h', w) \<and> rep (h', w) D' Bs' \<and>
           elems w Bs' = elems tv Bs \<and> frame h {d} h' (insert d (set D'))"
proof -
  from src have l: "laid h (dir tv) (dcap tv) (buffer_capacity tv) D Bs"
    and sh: "shape tv" and c: "length D = count tv"
    by (simp_all add: rep_def)
  note f = shape_fields [OF sh _ w(2-6)]
  have d0: "0 < dir w" using d(1) w(1) by simp
  have shw: "shape w" and eq: "dcap w = dcap tv" "buffer_capacity w = buffer_capacity tv"
    "count w = count tv"
    using f [OF d0] by simp_all
  have vw: "valid w" using shw by (simp add: shape_def)
  let ?n = "dir_size w" and ?bc = "buffer_capacity tv"
  from l obtain E where E: "dirs h (dir tv) = Some E" "length E = dcap tv"
    "\<And>k. k < length D \<Longrightarrow> E ! k = Some (D ! k)"
    unfolding laid_def by auto
  from l have len: "length D \<le> dcap tv" "length Bs = length D"
    and Dk: "\<And>k. k < length D \<Longrightarrow> D ! k < brk h \<and> bufs h (D ! k) = Some (Bs ! k) \<and> length (Bs ! k) = ?bc"
    unfolding laid_def by auto
  have nD: "?n \<le> length D" using c w(2) by (simp add: count_def)
  have ncap: "?n \<le> dcap w" using nD len eq by simp
  have srck: "k < length E \<and> E ! k = Some (D ! k) \<and> D ! k < brk h \<and>
              bufs h (D ! k) = Some (Bs ! k) \<and> length (Bs ! k) = ?bc" if "k < ?n" for k
    using that nD len E(2) E(3) [of k] Dk [of k] by simp
  have step: "\<exists>h1. construct_body (Object tv) t (h0, w) = Ok () (h1, w) \<and>
                   cons_inv h d (dcap w) (\<lambda>k. Bs ! k) (Suc t) h1"
    if "t < ?n" "cons_inv h d (dcap w) (\<lambda>k. Bs ! k) t h0" for t h0
    by (rule cons_inv_step_object [where E = E and D = D and n = ?n])
       (use that d(3) E(1) srck w(1) eq ncap in simp_all)
  have i0: "cons_inv h d (dcap w) (\<lambda>k. Bs ! k) 0 h"
    by (rule cons_inv_0) (use d eq in simp_all)
  from cons_inv_loop [where that = "Object tv", OF step refl i0] obtain h2 where
    h2: "construct_loop (Object tv) 0 (h, w) = Ok () (h2, w)"
      "cons_inv h d (dcap w) (\<lambda>k. Bs ! k) ?n h2" by auto
  let ?C = "(\<lambda>k. Bs ! k)(?n := replicate (buffer_capacity w) None)"
  from construct_exec [OF h2 vw w(1)] obtain h' where
    h': "construct (Object tv) (h, w) = Ok () (h', w)" "cons_inv h d (dcap w) ?C (count w) h'"
    by blast
  let ?D' = "map (\<lambda>k. brk h + k) [0..<count w]" and ?Bs' = "map ?C [0..<count w]"
  have cw: "count w \<le> dcap w" using c len eq by simp
  have lenC: "length (?C k) = buffer_capacity w" if "k < count w" for k
  proof (cases "k = ?n")
    case True then show ?thesis by simp
  next
    case False
    with that have "k < ?n" by (simp add: count_def split: if_splits)
    with srck [OF this] False eq show ?thesis by simp
  qed
  have ll: "laid h' d (dcap w) (buffer_capacity w) ?D' ?Bs'"
    by (rule cons_inv_laid [OF h'(2) d(1,2) cw lenC])
  have fr: "frame h {d} h' (insert d (set ?D'))" by (rule cons_inv_frame [OF h'(2)])
  have r: "rep (h', w) ?D' ?Bs'"
    using ll shw w(1) unfolding rep_def by (simp del: fun_upd_apply)
  have pos: "0 < ?n" using vw by (simp add: valid_def)
  have "elems w ?Bs' = elems w Bs"
    by (rule elems_cong) (use pos nD len in \<open>simp_all add: count_def\<close>)
  also have "\<dots> = elems tv Bs" by (rule elems_fields [OF w(2,3)])
  finally have e: "elems w ?Bs' = elems tv Bs" .
  from h'(1) r e fr show ?thesis by blast
qed

lemma elems_blank:
  assumes "0 < dir_size v" "dir_size v \<le> n" "last_buffer_size v \<le> buffer_capacity v"
  shows "elems v (map (\<lambda>k. replicate (buffer_capacity v) None) [0..<n]) = replicate (size_of v) None"
proof -
  let ?b = "buffer_capacity v" and ?Bs = "map (\<lambda>k. replicate (buffer_capacity v) None) [0..<n]"
  have u: "\<forall>B\<in>set ?Bs. length B = ?b" by auto
  have len: "length (elems v ?Bs) = size_of v"
    by (rule elems_length [OF u]) (use assms in simp_all)
  have "\<forall>x\<in>set (elems v ?Bs). x = None"
    using assms by (auto simp: elems_def dest!: in_set_takeD)
  from replicate_length_same [OF this] show ?thesis unfolding len by (rule sym)
qed

lemma construct_self_spec:
  assumes sh: "shape w" and d: "dir w < brk h" "dirs h (dir w) = Some L" "length L = dcap w"
  shows "\<exists>h' D' Bs'. construct This (h, w) = Ok () (h', w) \<and> rep (h', w) D' Bs' \<and>
           elems w Bs' = replicate (size_of w) None \<and> frame h {dir w} h' (insert (dir w) (set D'))"
proof -
  let ?n = "dir_size w" and ?bc = "buffer_capacity w" and ?d = "dir w"
  let ?C0 = "\<lambda>k::nat. replicate ?bc (None :: 'a option)"
  have vw: "valid w" using sh by (simp add: shape_def)
  then have d0: "0 < ?d" and pos: "0 < ?n" and ncap: "?n \<le> dcap w"
    and lb: "last_buffer_size w < ?bc" by (simp_all add: valid_def)
  have cw: "count w \<le> dcap w" using vw by (auto simp: valid_def count_def)
  have step: "\<exists>h1. construct_body This t (h0, w) = Ok () (h1, w) \<and>
                   cons_inv h ?d (dcap w) ?C0 (Suc t) h1"
    if "t < ?n" "cons_inv h ?d (dcap w) ?C0 t h0" for t h0
    by (rule cons_inv_step_self) (use that ncap in simp_all)
  have i0: "cons_inv h ?d (dcap w) ?C0 0 h"
    by (rule cons_inv_0) (use d in simp_all)
  from cons_inv_loop [where that = This, OF step refl i0] obtain h2 where
    h2: "construct_loop This 0 (h, w) = Ok () (h2, w)"
      "cons_inv h ?d (dcap w) ?C0 ?n h2" by auto
  have C: "?C0(?n := replicate ?bc None) = ?C0" by (simp add: fun_eq_iff)
  from construct_exec [OF h2 vw refl] obtain h' where
    h': "construct This (h, w) = Ok () (h', w)" "cons_inv h ?d (dcap w) ?C0 (count w) h'"
    unfolding C by blast
  let ?D' = "map (\<lambda>k. brk h + k) [0..<count w]" and ?Bs' = "map ?C0 [0..<count w]"
  have ll: "laid h' ?d (dcap w) ?bc ?D' ?Bs'"
    by (rule cons_inv_laid [OF h'(2) d0 d(1) cw]) simp
  have fr: "frame h {?d} h' (insert ?d (set ?D'))" by (rule cons_inv_frame [OF h'(2)])
  have r: "rep (h', w) ?D' ?Bs'" using ll sh by (simp add: rep_def)
  have e: "elems w ?Bs' = replicate (size_of w) None"
    by (rule elems_blank) (use pos lb in \<open>simp_all add: count_def\<close>)
  from h'(1) r e fr show ?thesis by blast
qed

subsection \<open>The copy constructor and \<^verbatim>\<open>operator=\<close>\<close>

lemma frame_alloc_dir:
  "frame h {} (h\<lparr>dirs := (dirs h)(brk h \<mapsto> L), brk := Suc (brk h)\<rparr>) {}"
  by (auto simp: frame_def)

lemma frame_trans_new:
  assumes "frame h1 {d} h' A'" "brk h \<le> d" "d < brk h1" "brk h \<le> brk h1"
    and "\<And>a. a < brk h \<Longrightarrow> a \<notin> A \<Longrightarrow> bufs h1 a = bufs h a \<and> dirs h1 a = dirs h a"
  shows "frame h A h' A'"
  using assms unfolding frame_def by (auto 4 3)

lemma vector_copy_spec:
  assumes r: "rep (h, tv) D Bs"
  shows "\<exists>h' v' D' Bs'. vector_copy tv h = Ok () (h', v') \<and> rep (h', v') D' Bs' \<and>
           elems v' Bs' = elems tv Bs \<and> frame h {} h' (insert (dir v') (set D'))"
proof -
  from r have l: "laid h (dir tv) (dcap tv) (buffer_capacity tv) D Bs" and sh: "shape tv"
    by (simp_all add: rep_def)
  have lbc: "0 < log_buffer_capacity tv" using sh by (simp add: shape_iff)
  from l have b: "0 < dir tv" "dir tv < brk h" by (simp_all add: laid_def)
  let ?d = "brk h" and ?L = "replicate (dcap tv) (None :: addr option)"
  let ?h1 = "h\<lparr>dirs := (dirs h)(?d \<mapsto> ?L), brk := Suc ?d\<rparr>"
  let ?w = "\<lparr>dir = ?d, dir_size = dir_size tv, last_buffer_size = last_buffer_size tv,
             log_buffer_capacity = log_buffer_capacity tv,
             big_buffer = big_buffer tv, extra_buffer = extra_buffer tv\<rparr>"
  have c: "vector_copy tv h = construct (Object tv) (?h1, ?w)"
    using lbc by (simp add: vector_copy_def dir_capacity_exec alloc_dir_def Let_def)
  have r1: "rep (?h1, tv) D Bs"
    by (rule rep_frame [OF r frame_alloc_dir]) simp
  from construct_object_spec [OF r1, where w = ?w and d = ?d and L = ?L] b
  obtain h' D' Bs' where
    h': "construct (Object tv) (?h1, ?w) = Ok () (h', ?w)" "rep (h', ?w) D' Bs'"
      "elems ?w Bs' = elems tv Bs" "frame ?h1 {?d} h' (insert ?d (set D'))"
    by auto
  have "frame h {} h' (insert ?d (set D'))"
    by (rule frame_trans_new [OF h'(4)]) simp_all
  with c h' show ?thesis by (intro exI [of _ h'] exI [of _ ?w] exI [of _ D'] exI [of _ Bs']) simp
qed

lemma frame_released:
  "frame h (insert d (set D)) (released h d D) {}"
  by (auto simp: frame_def released_def)

lemma assign_object_spec:
  assumes r: "rep (h, v) D Bs" and rt: "rep (h, tv) Dt Bst"
    and dj: "insert (dir tv) (set Dt) \<inter> insert (dir v) (set D) = {}"
  shows "\<exists>h' v' D' Bs'. assign (Object tv) (h, v) = Ok () (h', v') \<and> rep (h', v') D' Bs' \<and>
           elems v' Bs' = elems tv Bst \<and>
           frame h (insert (dir v) (set D)) h' (insert (dir v') (set D'))"
proof -
  from rt have l: "laid h (dir tv) (dcap tv) (buffer_capacity tv) Dt Bst" and sh: "shape tv"
    by (simp_all add: rep_def)
  have lbc: "0 < log_buffer_capacity tv" using sh by (simp add: shape_iff)
  from l have b: "0 < dir tv" "dir tv < brk h" by (simp_all add: laid_def)
  let ?h0 = "released h (dir v) D"
  let ?d = "brk h" and ?L = "replicate (dcap tv) (None :: addr option)"
  let ?h1 = "?h0\<lparr>dirs := (dirs ?h0)(?d \<mapsto> ?L), brk := Suc ?d\<rparr>"
  let ?w = "v\<lparr>dir := ?d, dir_size := dir_size tv, last_buffer_size := last_buffer_size tv,
             log_buffer_capacity := log_buffer_capacity tv,
             big_buffer := big_buffer tv, extra_buffer := extra_buffer tv\<rparr>"
  have b0: "brk ?h0 = brk h" by (simp add: released_def)
  have c: "assign (Object tv) (h, v) = construct (Object tv) (?h1, ?w)"
    using lbc b0
    by (simp add: assign_def destuct_spec [OF r] that_fields_def dir_capacity_exec prim_defs)
  have r0: "rep (?h0, tv) Dt Bst"
    by (rule rep_frame [OF rt frame_released dj])
  have r1: "rep (?h1, tv) Dt Bst"
    using rep_frame [OF r0 frame_alloc_dir] b0 by simp
  from construct_object_spec [OF r1, where w = ?w and d = ?d and L = ?L] b b0
  obtain h' D' Bs' where
    h': "construct (Object tv) (?h1, ?w) = Ok () (h', ?w)" "rep (h', ?w) D' Bs'"
      "elems ?w Bs' = elems tv Bst" "frame ?h1 {?d} h' (insert ?d (set D'))"
    by auto
  have "frame h (insert (dir v) (set D)) h' (insert ?d (set D'))"
    by (rule frame_trans_new [OF h'(4)]) (auto simp: released_def)
  with c h' show ?thesis by (intro exI [of _ h'] exI [of _ ?w] exI [of _ D'] exI [of _ Bs']) simp
qed

lemma assign_self_spec:
  assumes r: "rep (h, v) D Bs"
  shows "\<exists>h' v' D' Bs'. assign This (h, v) = Ok () (h', v') \<and> rep (h', v') D' Bs' \<and>
           elems v' Bs' = replicate (size_of v) None \<and>
           frame h (insert (dir v) (set D)) h' (insert (dir v') (set D'))"
proof -
  from r have l: "laid h (dir v) (dcap v) (buffer_capacity v) D Bs" and sh: "shape v"
    by (simp_all add: rep_def)
  have lbc: "0 < log_buffer_capacity v" using sh by (simp add: shape_iff)
  from l have b: "0 < dir v" "dir v < brk h" by (simp_all add: laid_def)
  let ?h0 = "released h (dir v) D"
  let ?d = "brk h" and ?L = "replicate (dcap v) (None :: addr option)"
  let ?h1 = "?h0\<lparr>dirs := (dirs ?h0)(?d \<mapsto> ?L), brk := Suc ?d\<rparr>"
  let ?w = "v\<lparr>dir := ?d\<rparr>"
  have b0: "brk ?h0 = brk h" by (simp add: released_def)
  have c: "assign This (h, v) = construct This (?h1, ?w)"
    using lbc b0
    by (simp add: assign_def destuct_spec [OF r] that_fields_def dir_capacity_exec prim_defs)
  have f: "shape ?w" "dcap ?w = dcap v" "size_of ?w = size_of v"
    using shape_fields [OF sh, of ?w] b by simp_all
  from construct_self_spec [OF f(1), of ?h1 ?L] b0 f(2)
  obtain h' D' Bs' where
    h': "construct This (?h1, ?w) = Ok () (h', ?w)" "rep (h', ?w) D' Bs'"
      "elems ?w Bs' = replicate (size_of ?w) None" "frame ?h1 {?d} h' (insert ?d (set D'))"
    by auto
  have "frame h (insert (dir v) (set D)) h' (insert ?d (set D'))"
    by (rule frame_trans_new [OF h'(4)]) (auto simp: released_def)
  with c h' f(3) show ?thesis
    by (intro exI [of _ h'] exI [of _ ?w] exI [of _ D'] exI [of _ Bs']) simp
qed

section \<open>The invariant of a program state\<close>

text \<open>
  The reference model of a program state lists the contents of the objects, cell by cell;
  a cell that was never assigned is \<open>None\<close>. Assigning an object to itself leaves cells
  that were never assigned.
\<close>

fun cell_exec :: "'a op \<Rightarrow> 'a option list \<Rightarrow> 'a option list" where
  "cell_exec (Push x) xs = xs @ [Some x]"
| "cell_exec Pop xs = butlast xs"
| "cell_exec (Put i x) xs = xs[i := Some x]"

fun wref :: "'a wop \<Rightarrow> 'a option list list \<Rightarrow> 'a option list list" where
  "wref New xss = xss @ [[]]"
| "wref (Copy j) xss = xss @ [xss ! j]"
| "wref (Assign k j) xss =
     xss[k := (if j = k then replicate (length (xss ! k)) None else xss ! j)]"
| "wref (On k c) xss = xss[k := cell_exec c (xss ! k)]"

fun wref_run :: "'a wop list \<Rightarrow> 'a option list list \<Rightarrow> 'a option list list" where
  "wref_run [] xss = xss"
| "wref_run (c # cs) xss = wref_run cs (wref c xss)"

definition foot :: "vector \<Rightarrow> addr list \<Rightarrow> addr set" where
  "foot v D = insert (dir v) (set D)"

text \<open>
  Every object is laid out in the store and holds its sequence of cells, and no address
  belongs to two objects.
\<close>

definition layout :: "'a world \<Rightarrow> 'a option list list \<Rightarrow> addr list list \<Rightarrow> 'a option list list list \<Rightarrow> bool" where
  "layout w xss Ds Bss \<longleftrightarrow>
     0 < brk (fst w) \<and> length (snd w) = length xss \<and>
     length Ds = length xss \<and> length Bss = length xss \<and>
     (\<forall>k<length xss. rep (fst w, snd w ! k) (Ds ! k) (Bss ! k) \<and>
                      elems (snd w ! k) (Bss ! k) = xss ! k) \<and>
     (\<forall>j<length xss. \<forall>k<length xss. j \<noteq> k \<longrightarrow>
         foot (snd w ! j) (Ds ! j) \<inter> foot (snd w ! k) (Ds ! k) = {})"

definition World :: "'a world \<Rightarrow> 'a option list list \<Rightarrow> bool" where
  "World w xss \<longleftrightarrow> (\<exists>Ds Bss. layout w xss Ds Bss)"

lemma foot_below:
  assumes "rep (h, v) D Bs"
  shows "\<forall>a\<in>foot v D. a < brk h"
  using assms laid_below [of h "dir v" "dcap v" "buffer_capacity v" D Bs]
  by (simp add: rep_def foot_def)

lemma frame_brk: "frame h A h' A' \<Longrightarrow> brk h \<le> brk h'"
  by (simp add: frame_def)

lemma frame_foot:
  assumes "frame h A h' A'" "\<forall>a\<in>B. a < brk h" "B \<inter> A = {}"
  shows "B \<inter> A' = {}"
  using assms unfolding frame_def by fastforce

lemma layout_update:
  assumes lay: "layout (h, vs) xss Ds Bss" and k: "k < length xss"
    and new: "rep (h', v') D' Bs'" "elems v' Bs' = ys"
      "frame h (foot (vs ! k) (Ds ! k)) h' (foot v' D')"
  shows "layout (h', vs[k := v']) (xss[k := ys]) (Ds[k := D']) (Bss[k := Bs'])"
proof -
  from lay have b: "0 < brk h" and len: "length vs = length xss" "length Ds = length xss"
      "length Bss = length xss"
    and reps: "\<And>j. j < length xss \<Longrightarrow> rep (h, vs ! j) (Ds ! j) (Bss ! j) \<and>
                      elems (vs ! j) (Bss ! j) = xss ! j"
    and dj: "\<And>i j. i < length xss \<Longrightarrow> j < length xss \<Longrightarrow> i \<noteq> j \<Longrightarrow>
                 foot (vs ! i) (Ds ! i) \<inter> foot (vs ! j) (Ds ! j) = {}"
    unfolding layout_def by auto
  have other: "rep (h', vs ! j) (Ds ! j) (Bss ! j) \<and> foot (vs ! j) (Ds ! j) \<inter> foot v' D' = {}"
    if j: "j < length xss" "j \<noteq> k" for j
  proof
    have d: "foot (vs ! j) (Ds ! j) \<inter> foot (vs ! k) (Ds ! k) = {}" by (rule dj [OF j(1) k j(2)])
    show "rep (h', vs ! j) (Ds ! j) (Bss ! j)"
      using rep_frame [OF reps [OF j(1), THEN conjunct1] new(3)] d by (simp add: foot_def)
    show "foot (vs ! j) (Ds ! j) \<inter> foot v' D' = {}"
      by (rule frame_foot [OF new(3) foot_below [OF reps [OF j(1), THEN conjunct1]] d])
  qed
  show ?thesis
    unfolding layout_def fst_conv snd_conv
  proof (intro conjI allI impI)
    show "0 < brk h'" using b frame_brk [OF new(3)] by simp
    show "length (vs[k := v']) = length (xss[k := ys])" using len by simp
    show "length (Ds[k := D']) = length (xss[k := ys])" using len by simp
    show "length (Bss[k := Bs']) = length (xss[k := ys])" using len by simp
  next
    fix j assume "j < length (xss[k := ys])"
    then have j: "j < length xss" by simp
    show "rep (h', vs[k := v'] ! j) (Ds[k := D'] ! j) (Bss[k := Bs'] ! j)"
      using other [OF j] new(1) j len by (cases "j = k") simp_all
    show "elems (vs[k := v'] ! j) (Bss[k := Bs'] ! j) = xss[k := ys] ! j"
      using reps [OF j] new(2) j len by (cases "j = k") simp_all
  next
    fix i j assume "i < length (xss[k := ys])" "j < length (xss[k := ys])" "i \<noteq> j"
    then have ij: "i < length xss" "j < length xss" "i \<noteq> j" by simp_all
    show "foot (vs[k := v'] ! i) (Ds[k := D'] ! i) \<inter> foot (vs[k := v'] ! j) (Ds[k := D'] ! j) = {}"
    proof (cases "i = k")
      case True
      with ij have "j \<noteq> k" by simp
      from other [OF ij(2) this] True ij len show ?thesis by (simp add: Int_commute)
    next
      case False
      show ?thesis
      proof (cases "j = k")
        case True
        from other [OF ij(1) False] True False ij len show ?thesis by simp
      next
        case jk: False
        from dj [OF ij] False jk ij len show ?thesis by simp
      qed
    qed
  qed
qed

lemma layout_add:
  assumes lay: "layout (h, vs) xss Ds Bss"
    and new: "rep (h', v') D' Bs'" "elems v' Bs' = ys" "frame h {} h' (foot v' D')"
  shows "layout (h', vs @ [v']) (xss @ [ys]) (Ds @ [D']) (Bss @ [Bs'])"
proof -
  from lay have b: "0 < brk h" and len: "length vs = length xss" "length Ds = length xss"
      "length Bss = length xss"
    and reps: "\<And>j. j < length xss \<Longrightarrow> rep (h, vs ! j) (Ds ! j) (Bss ! j) \<and>
                      elems (vs ! j) (Bss ! j) = xss ! j"
    and dj: "\<And>i j. i < length xss \<Longrightarrow> j < length xss \<Longrightarrow> i \<noteq> j \<Longrightarrow>
                 foot (vs ! i) (Ds ! i) \<inter> foot (vs ! j) (Ds ! j) = {}"
    unfolding layout_def by auto
  have other: "rep (h', vs ! j) (Ds ! j) (Bss ! j) \<and> foot (vs ! j) (Ds ! j) \<inter> foot v' D' = {}"
    if j: "j < length xss" for j
  proof
    show "rep (h', vs ! j) (Ds ! j) (Bss ! j)"
      using rep_frame [OF reps [OF j, THEN conjunct1] new(3)] by simp
    show "foot (vs ! j) (Ds ! j) \<inter> foot v' D' = {}"
      by (rule frame_foot [OF new(3) foot_below [OF reps [OF j, THEN conjunct1]]]) simp
  qed
  show ?thesis
    unfolding layout_def fst_conv snd_conv
  proof (intro conjI allI impI)
    show "0 < brk h'" using b frame_brk [OF new(3)] by simp
    show "length (vs @ [v']) = length (xss @ [ys])" using len by simp
    show "length (Ds @ [D']) = length (xss @ [ys])" using len by simp
    show "length (Bss @ [Bs']) = length (xss @ [ys])" using len by simp
  next
    fix j assume "j < length (xss @ [ys])"
    then have j: "j < length xss \<or> j = length xss" by auto
    show "rep (h', (vs @ [v']) ! j) ((Ds @ [D']) ! j) ((Bss @ [Bs']) ! j)"
      using j other new(1) len by (auto simp: nth_append)
    show "elems ((vs @ [v']) ! j) ((Bss @ [Bs']) ! j) = (xss @ [ys]) ! j"
      using j reps new(2) len by (auto simp: nth_append)
  next
    fix i j assume "i < length (xss @ [ys])" "j < length (xss @ [ys])" "i \<noteq> j"
    then consider "i < length xss" "j < length xss" "i \<noteq> j"
      | "i < length xss" "j = length xss" | "j < length xss" "i = length xss"
      by (auto simp: less_Suc_eq)
    then show "foot ((vs @ [v']) ! i) ((Ds @ [D']) ! i) \<inter> foot ((vs @ [v']) ! j) ((Ds @ [D']) ! j) = {}"
    proof cases
      case 1
      with dj [OF 1] len show ?thesis by (simp add: nth_append)
    next
      case 2
      with other [OF 2(1)] len show ?thesis by (simp add: nth_append)
    next
      case 3
      with other [OF 3(1)] len show ?thesis by (simp add: nth_append Int_commute)
    qed
  qed
qed

lemma exec_rep:
  assumes r: "rep (h, v) D Bs" and p: "op_permitted c (length (elems v Bs))"
  shows "\<exists>h' v' D' Bs'. exec c (h, v) = Ok () (h', v') \<and> rep (h', v') D' Bs' \<and>
           elems v' Bs' = cell_exec c (elems v Bs) \<and> frame h (foot v D) h' (foot v' D')"
proof (cases c)
  case (Push x)
  with push_back_rep [OF r, of x] show ?thesis by (simp add: foot_def)
next
  case Pop
  have n: "size_of v = length (elems v Bs)" using rep_elems_length [OF r] by simp
  have "0 < size_of v" using p Pop by (simp add: n)
  from pop_back_rep [OF r this] Pop show ?thesis by (simp add: foot_def)
next
  case (Put i x)
  have n: "size_of v = length (elems v Bs)" using rep_elems_length [OF r] by simp
  have "i < size_of v" using p Put by (simp add: n)
  from index_put_rep [OF r this, of x] Put show ?thesis by (auto simp: foot_def)
qed

lemma cell_exec_length:
  "op_permitted c (length xs) \<Longrightarrow> length (cell_exec c xs) = op_size c (length xs)"
  by (cases c) simp_all

lemma wref_sizes:
  "wpermitted c (map length xss) \<Longrightarrow> map length (wref c xss) = wsizes c (map length xss)"
  by (cases c) (auto simp: map_update cell_exec_length)

lemma layout_wexec:
  assumes lay: "layout (h, vs) xss Ds Bss" and p: "wpermitted c (map length xss)"
  shows "\<exists>w'. wexec c (h, vs) = Ok () w' \<and> World w' (wref c xss)"
proof -
  from lay have b: "0 < brk h" and len: "length vs = length xss" "length Ds = length xss"
      "length Bss = length xss"
    and reps: "\<And>j. j < length xss \<Longrightarrow> rep (h, vs ! j) (Ds ! j) (Bss ! j)"
    and els: "\<And>j. j < length xss \<Longrightarrow> elems (vs ! j) (Bss ! j) = xss ! j"
    and dj: "\<And>i j. i < length xss \<Longrightarrow> j < length xss \<Longrightarrow> i \<noteq> j \<Longrightarrow>
                 foot (vs ! i) (Ds ! i) \<inter> foot (vs ! j) (Ds ! j) = {}"
    unfolding layout_def by auto
  show ?thesis
  proof (cases c)
    case New
    from vector_ctor_rep [OF b] obtain h' v' D' Bs' where
      n: "vector_ctor h = Ok () (h', v')" "rep (h', v') D' Bs'" "elems v' Bs' = []"
        "frame h {} h' (foot v' D')" by (auto simp: foot_def)
    from layout_add [OF lay n(2,3,4)] n(1) New show ?thesis
      by (auto simp: add_object_def World_def)
  next
    case (Copy j)
    with p have j: "j < length xss" by simp
    from vector_copy_spec [OF reps [OF j]] obtain h' v' D' Bs' where
      n: "vector_copy (vs ! j) h = Ok () (h', v')" "rep (h', v') D' Bs'"
        "elems v' Bs' = elems (vs ! j) (Bss ! j)"
        "frame h {} h' (foot v' D')" by (auto simp: foot_def)
    from n(3) els [OF j] have e: "elems v' Bs' = xss ! j" by simp
    from layout_add [OF lay n(2) e n(4)] n(1) Copy j len show ?thesis
      by (auto simp: add_object_def World_def)
  next
    case (Assign k j)
    with p have k: "k < length xss" and j: "j < length xss" by simp_all
    show ?thesis
    proof (cases "j = k")
      case True
      from assign_self_spec [OF reps [OF k]] obtain h' v' D' Bs' where
        n: "assign This (h, vs ! k) = Ok () (h', v')" "rep (h', v') D' Bs'"
          "elems v' Bs' = replicate (size_of (vs ! k)) None"
          "frame h (foot (vs ! k) (Ds ! k)) h' (foot v' D')" by (auto simp: foot_def)
      have "size_of (vs ! k) = length (xss ! k)"
        using rep_elems_length [OF reps [OF k]] els [OF k] by simp
      with n(3) have e: "elems v' Bs' = replicate (length (xss ! k)) None" by simp
      from layout_update [OF lay k n(2) e n(4)] n(1) Assign True k len show ?thesis
        by (auto simp: on_object_def World_def)
    next
      case False
      then have "foot (vs ! j) (Ds ! j) \<inter> foot (vs ! k) (Ds ! k) = {}" by (rule dj [OF j k])
      then have d: "insert (dir (vs ! j)) (set (Ds ! j)) \<inter> insert (dir (vs ! k)) (set (Ds ! k)) = {}"
        by (simp add: foot_def)
      from assign_object_spec [OF reps [OF k] reps [OF j] d] obtain h' v' D' Bs' where
        n: "assign (Object (vs ! j)) (h, vs ! k) = Ok () (h', v')" "rep (h', v') D' Bs'"
          "elems v' Bs' = elems (vs ! j) (Bss ! j)"
          "frame h (foot (vs ! k) (Ds ! k)) h' (foot v' D')" by (auto simp: foot_def)
      from n(3) els [OF j] have e: "elems v' Bs' = xss ! j" by simp
      from layout_update [OF lay k n(2) e n(4)] n(1) Assign False k j len show ?thesis
        by (auto simp: on_object_def World_def)
    qed
  next
    case (On k a)
    with p have k: "k < length xss" by simp
    with p On have pa: "op_permitted a (length (xss ! k))" by simp
    from pa els [OF k] have pa': "op_permitted a (length (elems (vs ! k) (Bss ! k)))" by simp
    from exec_rep [OF reps [OF k] pa'] obtain h' v' D' Bs' where
      n: "exec a (h, vs ! k) = Ok () (h', v')" "rep (h', v') D' Bs'"
        "elems v' Bs' = cell_exec a (elems (vs ! k) (Bss ! k))"
        "frame h (foot (vs ! k) (Ds ! k)) h' (foot v' D')" by blast
    from n(3) els [OF k] have e: "elems v' Bs' = cell_exec a (xss ! k)" by simp
    from layout_update [OF lay k n(2) e n(4)] n(1) On k len show ?thesis
      by (auto simp: on_object_def World_def)
  qed
qed

lemma World_wexec:
  assumes "World w xss" "wpermitted c (map length xss)"
  shows "\<exists>w'. wexec c w = Ok () w' \<and> World w' (wref c xss)"
proof -
  obtain h vs where w: "w = (h, vs)" by (cases w)
  from assms(1) obtain Ds Bss where "layout (h, vs) xss Ds Bss" unfolding World_def w by blast
  from layout_wexec [OF this assms(2)] show ?thesis by (simp add: w)
qed

lemma World_wrun:
  "World w xss \<Longrightarrow> wcontract cs (map length xss) \<Longrightarrow>
     \<exists>w'. wrun cs w = Ok () w' \<and> World w' (wref_run cs xss)"
proof (induction cs arbitrary: w xss)
  case Nil
  then show ?case by simp
next
  case (Cons c cs)
  from Cons.prems(2) have p: "wpermitted c (map length xss)"
    and q: "wcontract cs (wsizes c (map length xss))" by simp_all
  from World_wexec [OF Cons.prems(1) p] obtain w1 where
    w1: "wexec c w = Ok () w1" "World w1 (wref c xss)" by blast
  from q wref_sizes [OF p] have "wcontract cs (map length (wref c xss))" by simp
  from Cons.IH [OF w1(2) this] w1(1) show ?case by simp
qed

lemma World_empty: "World empty_world []"
  by (simp add: World_def layout_def empty_world_def empty_heap_def)

lemma World_reach:
  assumes "wcontract cs []"
  shows "\<exists>w. wrun cs empty_world = Ok () w \<and> World w (wref_run cs [])"
  using World_wrun [OF World_empty] assms by simp

lemma World_length: "World w xss \<Longrightarrow> length (snd w) = length xss"
  unfolding World_def layout_def by auto

lemma World_object:
  assumes "World w xss" "k < length xss"
  shows "Inv (fst w, snd w ! k) (xss ! k)"
  using assms unfolding World_def layout_def Inv_def by auto

text \<open>
  C3. Every program that respects the callers' contract runs to its end, and in the state
  it reaches every object satisfies \<^verbatim>\<open>assert_valid()\<close> and the five invariants, where \<open>c\<close> is
  the value of \<^verbatim>\<open>dir_capacity()\<close>; \<^verbatim>\<open>size()\<close> and \<^verbatim>\<open>operator[]\<close> at an index below the size
  return and leave the state as it is. The programs are the sequences of default
  constructions, copy constructions, assignments, \<^verbatim>\<open>push_back\<close>, \<^verbatim>\<open>pop_back\<close> and assignments
  through \<^verbatim>\<open>operator[]\<close>; each of their prefixes is such a program, so the state at the start
  and at the end of every operation is covered.
\<close>

theorem invariants_hold:
  assumes "wcontract cs []"
  shows "\<exists>w. wrun cs empty_world = Ok () w \<and>
     (\<forall>k<length (snd w).
        \<exists>c. dir_capacity (fst w, snd w ! k) = Ok c (fst w, snd w ! k) \<and>
            assert_valid (fst w, snd w ! k) = Ok () (fst w, snd w ! k) \<and>
            1 \<le> dir_size (snd w ! k) \<and> dir_size (snd w ! k) \<le> c \<and>
            last_buffer_size (snd w ! k) < buffer_capacity (snd w ! k) \<and>
            (last_buffer_size (snd w ! k) = 0 \<longrightarrow> \<not> extra_buffer (snd w ! k)) \<and>
            (extra_buffer (snd w ! k) \<longrightarrow>
               0 < last_buffer_size (snd w ! k) \<and> dir_size (snd w ! k) < c) \<and>
            c \<le> (dir_size (snd w ! k) + (if extra_buffer (snd w ! k) then 1 else 0)) * 4 \<and>
            (\<exists>n. size_vec (fst w, snd w ! k) = Ok n (fst w, snd w ! k) \<and>
                 (\<forall>i<n. \<exists>x. index_get i (fst w, snd w ! k) = Ok x (fst w, snd w ! k))))"
proof -
  from World_reach [OF assms] obtain w where
    w: "wrun cs empty_world = Ok () w" "World w (wref_run cs [])" by blast
  let ?xss = "wref_run cs []"
  have "\<exists>c. dir_capacity (fst w, snd w ! k) = Ok c (fst w, snd w ! k) \<and>
            assert_valid (fst w, snd w ! k) = Ok () (fst w, snd w ! k) \<and>
            1 \<le> dir_size (snd w ! k) \<and> dir_size (snd w ! k) \<le> c \<and>
            last_buffer_size (snd w ! k) < buffer_capacity (snd w ! k) \<and>
            (last_buffer_size (snd w ! k) = 0 \<longrightarrow> \<not> extra_buffer (snd w ! k)) \<and>
            (extra_buffer (snd w ! k) \<longrightarrow>
               0 < last_buffer_size (snd w ! k) \<and> dir_size (snd w ! k) < c) \<and>
            c \<le> (dir_size (snd w ! k) + (if extra_buffer (snd w ! k) then 1 else 0)) * 4 \<and>
            (\<exists>n. size_vec (fst w, snd w ! k) = Ok n (fst w, snd w ! k) \<and>
                 (\<forall>i<n. \<exists>x. index_get i (fst w, snd w ! k) = Ok x (fst w, snd w ! k)))"
    if k: "k < length (snd w)" for k
  proof -
    let ?s = "(fst w, snd w ! k)" and ?v = "snd w ! k"
    have kk: "k < length ?xss" using k World_length [OF w(2)] by simp
    have inv: "Inv ?s (?xss ! k)" by (rule World_object [OF w(2) kk])
    note sz = Inv_size [OF inv]
    have va: "valid ?v" using sz(3) by simp
    then have lbc: "0 < log_buffer_capacity (this ?s)" by (simp add: valid_def)
    have dc: "dir_capacity ?s = Ok (dcap ?v) ?s" using dir_capacity_exec [OF lbc] by simp
    have av: "assert_valid ?s = Ok () ?s" using va by (simp add: assert_valid_exec)
    have ig: "\<forall>i<length (?xss ! k). \<exists>x. index_get i ?s = Ok x ?s"
      using Inv_index_get [OF inv] by blast
    have obs: "\<exists>n. size_vec ?s = Ok n ?s \<and> (\<forall>i<n. \<exists>x. index_get i ?s = Ok x ?s)"
      using sz(1) ig by blast
    from va have "1 \<le> dir_size ?v \<and> dir_size ?v \<le> dcap ?v \<and>
            last_buffer_size ?v < buffer_capacity ?v \<and>
            (last_buffer_size ?v = 0 \<longrightarrow> \<not> extra_buffer ?v) \<and>
            (extra_buffer ?v \<longrightarrow> 0 < last_buffer_size ?v \<and> dir_size ?v < dcap ?v) \<and>
            dcap ?v \<le> (dir_size ?v + (if extra_buffer ?v then 1 else 0)) * 4"
      by (auto simp: valid_def count_def)
    with dc av obs show ?thesis by (intro exI [of _ "dcap ?v"]) simp
  qed
  with w(1) show ?thesis by blast
qed

theorem invariants_hold_witness:
  "wcontract [New, On 0 (Push (1::nat)), On 0 (Push 2), Copy 0, On 1 Pop, Assign 0 1,
              Assign 1 1, On 1 (Put 0 3), On 0 (Push 3)] [] \<and>
   (\<exists>w c. wrun [New, On 0 (Push (1::nat)), On 0 (Push 2), Copy 0, On 1 Pop, Assign 0 1,
                 Assign 1 1, On 1 (Put 0 3), On 0 (Push 3)] empty_world = Ok () w \<and>
      1 < length (snd w) \<and>
      dir_capacity (fst w, snd w ! 1) = Ok c (fst w, snd w ! 1) \<and>
      assert_valid (fst w, snd w ! 1) = Ok () (fst w, snd w ! 1) \<and>
      1 \<le> dir_size (snd w ! 1) \<and> dir_size (snd w ! 1) \<le> c \<and>
      last_buffer_size (snd w ! 1) < buffer_capacity (snd w ! 1) \<and>
      c \<le> (dir_size (snd w ! 1) + (if extra_buffer (snd w ! 1) then 1 else 0)) * 4)"
proof -
  let ?cs = "[New, On 0 (Push (1::nat)), On 0 (Push 2), Copy 0, On 1 Pop, Assign 0 1,
              Assign 1 1, On 1 (Put 0 3), On 0 (Push 3)]"
  have c: "wcontract ?cs []" by simp
  have n: "length (wref_run ?cs []) = 2" by simp
  from invariants_hold [OF c] obtain w where
    w: "wrun ?cs empty_world = Ok () w"
    and i: "\<forall>k<length (snd w).
        \<exists>c. dir_capacity (fst w, snd w ! k) = Ok c (fst w, snd w ! k) \<and>
            assert_valid (fst w, snd w ! k) = Ok () (fst w, snd w ! k) \<and>
            1 \<le> dir_size (snd w ! k) \<and> dir_size (snd w ! k) \<le> c \<and>
            last_buffer_size (snd w ! k) < buffer_capacity (snd w ! k) \<and>
            (last_buffer_size (snd w ! k) = 0 \<longrightarrow> \<not> extra_buffer (snd w ! k)) \<and>
            (extra_buffer (snd w ! k) \<longrightarrow>
               0 < last_buffer_size (snd w ! k) \<and> dir_size (snd w ! k) < c) \<and>
            c \<le> (dir_size (snd w ! k) + (if extra_buffer (snd w ! k) then 1 else 0)) * 4 \<and>
            (\<exists>n. size_vec (fst w, snd w ! k) = Ok n (fst w, snd w ! k) \<and>
                 (\<forall>i<n. \<exists>x. index_get i (fst w, snd w ! k) = Ok x (fst w, snd w ! k)))"
    by blast
  from World_reach [OF c] w have "World w (wref_run ?cs [])" by auto
  from World_length [OF this] n have l: "1 < length (snd w)" by simp
  from i [rule_format, OF l] obtain c where
    "dir_capacity (fst w, snd w ! 1) = Ok c (fst w, snd w ! 1)"
    "assert_valid (fst w, snd w ! 1) = Ok () (fst w, snd w ! 1)"
    "1 \<le> dir_size (snd w ! 1)" "dir_size (snd w ! 1) \<le> c"
    "last_buffer_size (snd w ! 1) < buffer_capacity (snd w ! 1)"
    "c \<le> (dir_size (snd w ! 1) + (if extra_buffer (snd w ! 1) then 1 else 0)) * 4"
    by blast
  with c w l show ?thesis by blast
qed

section \<open>What a program observes of an object\<close>

text \<open>
  \<open>view w k\<close> is what \<^verbatim>\<open>size()\<close> and \<^verbatim>\<open>operator[]\<close> show of object \<open>k\<close>: the cells at the
  indices below the size, or \<open>None\<close> when one of the calls fails.
\<close>

definition view :: "'a world \<Rightarrow> nat \<Rightarrow> 'a option list option" where
  "view w k =
     (case size_vec (fst w, snd w ! k) of
        Abort e s \<Rightarrow> None
      | Ok n s \<Rightarrow>
          those (map (\<lambda>i. case index_get i (fst w, snd w ! k) of
                            Ok x s \<Rightarrow> Some x
                          | Abort e s \<Rightarrow> None) [0..<n]))"

lemma those_map_Some: "those (map Some xs) = Some xs"
  by (induction xs) simp_all

lemma World_view:
  assumes "World w xss" "k < length xss"
  shows "view w k = Some (xss ! k)"
proof -
  let ?s = "(fst w, snd w ! k)" and ?xs = "xss ! k"
  have inv: "Inv ?s ?xs" by (rule World_object [OF assms])
  have "map (\<lambda>i. case index_get i ?s of Ok x s \<Rightarrow> Some x | Abort e s \<Rightarrow> None) [0..<length ?xs]
          = map (\<lambda>i. Some (?xs ! i)) [0..<length ?xs]"
    using Inv_index_get [OF inv] by simp
  also have "\<dots> = map Some (map (\<lambda>i. ?xs ! i) [0..<length ?xs])" by simp
  also have "\<dots> = map Some ?xs" by (simp only: map_nth)
  finally show ?thesis
    using Inv_size(1) [OF inv] by (simp add: view_def those_map_Some)
qed

lemma World_sizes:
  assumes "World w xss"
  shows "map size_of (snd w) = map length xss"
proof (rule nth_equalityI)
  show "length (map size_of (snd w)) = length (map length xss)"
    using World_length [OF assms] by simp
  fix k assume "k < length (map size_of (snd w))"
  then have k: "k < length xss" using World_length [OF assms] by simp
  from Inv_size(2) [OF World_object [OF assms k]] k World_length [OF assms]
  show "map size_of (snd w) ! k = map length xss ! k" by simp
qed

lemma wref_run_other:
  "j \<noteq> b \<Longrightarrow> wref_run (map (On b) ms) xss ! j = xss ! j \<and>
     length (wref_run (map (On b) ms) xss) = length xss"
  by (induction ms arbitrary: xss) simp_all

lemma World_independent:
  assumes W: "World w xss" and j: "j < length xss" "j \<noteq> b"
    and c: "wcontract (map (On b) ms) (map size_of (snd w))"
  shows "\<exists>w'. wrun (map (On b) ms) w = Ok () w' \<and> view w' j = Some (xss ! j)"
proof -
  from c World_sizes [OF W] have "wcontract (map (On b) ms) (map length xss)" by simp
  from World_wrun [OF W this] obtain w' where
    w': "wrun (map (On b) ms) w = Ok () w'" "World w' (wref_run (map (On b) ms) xss)" by blast
  from World_view [OF w'(2), of j] wref_run_other [OF j(2), of ms xss] j(1)
  have "view w' j = Some (xss ! j)" by simp
  with w'(1) show ?thesis by blast
qed

text \<open>
  C9. In a state reached by a program, let object \<open>b\<close> be copy constructed from object \<open>j\<close>,
  or let \<open>j\<close> be assigned to another object \<open>b\<close>. Afterwards \<open>b\<close> and \<open>j\<close> show the sequence
  that \<open>j\<close> showed before, and whatever mutators are then called on one of the two, in
  accordance with their contract, the other one still shows that sequence.
\<close>

theorem copy_is_independent:
  assumes "wcontract cs []" and "wrun cs empty_world = Ok () w" and "j < length (snd w)"
    and "c = Copy j \<and> b = length (snd w) \<or> c = Assign b j \<and> b < length (snd w) \<and> b \<noteq> j"
  shows "\<exists>w1 ys. wexec c w = Ok () w1 \<and> view w j = Some ys \<and>
           view w1 j = Some ys \<and> view w1 b = Some ys \<and>
           (\<forall>ms. wcontract (map (On b) ms) (map size_of (snd w1)) \<longrightarrow>
                 (\<exists>w2. wrun (map (On b) ms) w1 = Ok () w2 \<and> view w2 j = Some ys)) \<and>
           (\<forall>ms. wcontract (map (On j) ms) (map size_of (snd w1)) \<longrightarrow>
                 (\<exists>w2. wrun (map (On j) ms) w1 = Ok () w2 \<and> view w2 b = Some ys))"
proof -
  let ?xss = "wref_run cs []"
  from World_reach [OF assms(1)] assms(2) have W: "World w ?xss" by auto
  note len = World_length [OF W]
  have j: "j < length ?xss" using assms(3) len by simp
  have p: "wpermitted c (map length ?xss)" using assms(4) j len by auto
  from World_wexec [OF W p] obtain w1 where
    w1: "wexec c w = Ok () w1" "World w1 (wref c ?xss)" by blast
  have bj: "b \<noteq> j" using assms(3,4) by auto
  have r: "length (wref c ?xss) > j \<and> length (wref c ?xss) > b \<and>
           wref c ?xss ! j = ?xss ! j \<and> wref c ?xss ! b = ?xss ! j"
    using assms(4) j len bj by (auto simp: nth_append)
  have v0: "view w j = Some (?xss ! j)" by (rule World_view [OF W j])
  have v1: "view w1 j = Some (?xss ! j)" using World_view [OF w1(2), of j] r by simp
  have v2: "view w1 b = Some (?xss ! j)" using World_view [OF w1(2), of b] r by simp
  have i1: "\<exists>w2. wrun (map (On b) ms) w1 = Ok () w2 \<and> view w2 j = Some (?xss ! j)"
    if "wcontract (map (On b) ms) (map size_of (snd w1))" for ms
    using World_independent [OF w1(2) _ _ that, of j] r bj by auto
  have i2: "\<exists>w2. wrun (map (On j) ms) w1 = Ok () w2 \<and> view w2 b = Some (?xss ! j)"
    if "wcontract (map (On j) ms) (map size_of (snd w1))" for ms
    using World_independent [OF w1(2) _ _ that, of b] r bj by auto
  from w1(1) v0 v1 v2 i1 i2 show ?thesis by blast
qed

theorem copy_is_independent_witness:
  "wcontract [New, On 0 (Push (7::nat)), On 0 (Push 8)] [] \<and>
   (\<exists>w w1. wrun [New, On 0 (Push (7::nat)), On 0 (Push 8)] empty_world = Ok () w \<and>
      0 < length (snd w) \<and> 1 = length (snd w) \<and>
      wexec (Copy 0) w = Ok () w1 \<and>
      view w 0 = Some [Some 7, Some 8] \<and>
      view w1 0 = Some [Some 7, Some 8] \<and> view w1 1 = Some [Some 7, Some 8] \<and>
      wcontract (map (On 1) [Push (9::nat), Pop, Pop, Put 0 5]) (map size_of (snd w1)) \<and>
      (\<exists>w2. wrun (map (On 1) [Push 9, Pop, Pop, Put 0 5]) w1 = Ok () w2 \<and>
            view w2 0 = Some [Some 7, Some 8]) \<and>
      wcontract (map (On 0) [Pop :: nat op]) (map size_of (snd w1)) \<and>
      (\<exists>w2. wrun (map (On 0) [Pop]) w1 = Ok () w2 \<and> view w2 1 = Some [Some 7, Some 8]))"
proof -
  let ?cs = "[New, On 0 (Push (7::nat)), On 0 (Push 8)]"
  let ?ys = "[Some (7::nat), Some 8]"
  let ?m1 = "[Push (9::nat), Pop, Pop, Put 0 5]" and ?m2 = "[Pop] :: nat op list"
  have c: "wcontract ?cs []" by simp
  have x: "wref_run ?cs [] = [?ys]" by simp
  from World_reach [OF c] obtain w where
    w: "wrun ?cs empty_world = Ok () w" and W: "World w [?ys]" unfolding x by blast
  have l: "0 < length (snd w)" "1 = length (snd w)" using World_length [OF W] by simp_all
  have v: "view w 0 = Some ?ys" using World_view [OF W, of 0] by simp
  from World_wexec [OF W, of "Copy 0"] obtain w1' where
    w1': "wexec (Copy 0) w = Ok () w1'" "World w1' [?ys, ?ys]" by auto
  from copy_is_independent [OF c w l(1), of "Copy 0" 1] l(2) obtain w1 ys where
    t: "wexec (Copy 0) w = Ok () w1" "view w 0 = Some ys" "view w1 0 = Some ys"
      "view w1 1 = Some ys"
      "\<forall>ms. wcontract (map (On 1) ms) (map size_of (snd w1)) \<longrightarrow>
                 (\<exists>w2. wrun (map (On 1) ms) w1 = Ok () w2 \<and> view w2 0 = Some ys)"
      "\<forall>ms. wcontract (map (On 0) ms) (map size_of (snd w1)) \<longrightarrow>
                 (\<exists>w2. wrun (map (On 0) ms) w1 = Ok () w2 \<and> view w2 1 = Some ys)"
    by blast
  have ys: "ys = ?ys" using t(2) v by simp
  have "w1 = w1'" using t(1) w1'(1) by simp
  with World_sizes [OF w1'(2)] have s: "map size_of (snd w1) = [2, 2]" by simp
  have c1: "wcontract (map (On 1) ?m1) (map size_of (snd w1))" unfolding s by simp
  have c2: "wcontract (map (On 0) ?m2) (map size_of (snd w1))" unfolding s by simp
  from t(5) [rule_format, OF c1] have r1:
    "\<exists>w2. wrun (map (On 1) ?m1) w1 = Ok () w2 \<and> view w2 0 = Some ?ys" unfolding ys .
  from t(6) [rule_format, OF c2] have r2:
    "\<exists>w2. wrun (map (On 0) ?m2) w1 = Ok () w2 \<and> view w2 1 = Some ?ys" unfolding ys .
  from c w l t(1) v t(3,4) [unfolded ys] c1 r1 c2 r2 show ?thesis by blast
qed

text \<open>
  C10. \<^verbatim>\<open>vector<unsigned> a; a.push_back(7); a = a;\<close> Before the assignment \<open>a\<close> shows the
  sequence \<open>7\<close>. The assignment returns, and \<open>a\<close> then shows one cell that was never
  assigned: \<^verbatim>\<open>destuct()\<close> has freed the buffer that held 7, and \<^verbatim>\<open>construct(that)\<close> has
  copied the new buffer onto itself.
\<close>

theorem self_assignment_loses_the_elements:
  "\<exists>w w'. wrun [New, On 0 (Push (7::nat))] empty_world = Ok () w \<and>
          view w 0 = Some [Some 7] \<and>
          wexec (Assign 0 0) w = Ok () w' \<and>
          view w' 0 = Some [None]"
proof -
  let ?cs = "[New, On 0 (Push (7::nat))]"
  have c: "wcontract ?cs []" by simp
  have x: "wref_run ?cs [] = [[Some 7]]" by simp
  from World_reach [OF c] obtain w where
    w: "wrun ?cs empty_world = Ok () w" and W: "World w [[Some 7]]" unfolding x by blast
  have v: "view w 0 = Some [Some 7]" using World_view [OF W, of 0] by simp
  from World_wexec [OF W, of "Assign 0 0"] obtain w' where
    w': "wexec (Assign 0 0) w = Ok () w'" "World w' [[None]]" by auto
  have v': "view w' 0 = Some [None]" using World_view [OF w'(2), of 0] by simp
  from w v w'(1) v' show ?thesis by blast
qed

end
